theory Spec2Isabelle
  imports Main "HOL-Library.AList" "HOL-Library.Multiset"
begin

section \<open>JSON values and Python dictionaries\<close>

text \<open>
  The schema documents and field fragments of the repository are the values that
  \<^verbatim>\<open>json.load\<close> produces: \<^verbatim>\<open>None\<close>, booleans, integers, strings, lists and dictionaries
  with string keys. A Python dictionary keeps its keys in insertion order and
  \<^verbatim>\<open>json.dumps\<close> writes them in that order, so a dictionary is an association list.
  Every document is a tree: no two places share one mutable object, which is what
  \<^verbatim>\<open>json.load\<close> and \<^verbatim>\<open>deepcopy\<close> deliver. In-place mutation is therefore modelled by
  returning the updated value. Floating point numbers are left out.
\<close>

datatype json =
    JNull
  | JBool bool
  | JInt int
  | JStr string
  | JList "json list"
  | JDict "(string \<times> json) list"

text \<open>The exceptions that the modelled code can raise.\<close>

datatype error =
    KeyError
  | AttributeError
  | TypeError
  | JSONDecodeError
  | ValidationError
  | RuntimeError

type_synonym pydict = "(string \<times> json) list"

text \<open>
  \<^verbatim>\<open>d.get(k)\<close>, \<^verbatim>\<open>k in d\<close>, \<^verbatim>\<open>d.pop(k, None)\<close>, \<^verbatim>\<open>d[k] = v\<close> and \<^verbatim>\<open>d.update(other)\<close>.
  Assigning to a key that is present keeps its position, a new key goes to the end.
\<close>

definition dict_get :: "pydict \<Rightarrow> string \<Rightarrow> json option" where
  "dict_get d k = map_of d k"

definition dict_has :: "pydict \<Rightarrow> string \<Rightarrow> bool" where
  "dict_has d k = (k \<in> fst ` set d)"

definition dict_pop :: "string \<Rightarrow> pydict \<Rightarrow> pydict" where
  "dict_pop k d = AList.delete k d"

definition dict_set :: "string \<Rightarrow> json \<Rightarrow> pydict \<Rightarrow> pydict" where
  "dict_set k v d = AList.update k v d"

definition dict_update :: "pydict \<Rightarrow> pydict \<Rightarrow> pydict" where
  "dict_update d other = fold (\<lambda>(k, v). dict_set k v) other d"

text \<open>\<^verbatim>\<open>obj[key]\<close> on any value: a missing key raises \<^verbatim>\<open>KeyError\<close>, a value that is
  not a dictionary cannot be indexed by a string and raises \<^verbatim>\<open>TypeError\<close>.\<close>

fun py_getitem :: "json \<Rightarrow> string \<Rightarrow> error + json" where
  "py_getitem (JDict d) k = (case dict_get d k of None \<Rightarrow> Inl KeyError | Some v \<Rightarrow> Inr v)"
| "py_getitem v k = Inl TypeError"

text \<open>Truthiness of a value, as \<^verbatim>\<open>if item\<close> tests it.\<close>

fun truthy :: "json \<Rightarrow> bool" where
  "truthy JNull = False"
| "truthy (JBool b) = b"
| "truthy (JInt n) = (n \<noteq> 0)"
| "truthy (JStr s) = (s \<noteq> [])"
| "truthy (JList xs) = (xs \<noteq> [])"
| "truthy (JDict d) = (d \<noteq> [])"

section \<open>String methods\<close>

text \<open>\<^verbatim>\<open>str.startswith\<close>, \<^verbatim>\<open>str.endswith\<close>, \<^verbatim>\<open>str.removeprefix\<close>, \<^verbatim>\<open>str.removesuffix\<close>,
  \<^verbatim>\<open>s.replace(" ", "")\<close> and the substring test \<^verbatim>\<open>a in b\<close>.\<close>

definition startswith :: "string \<Rightarrow> string \<Rightarrow> bool" where
  "startswith s p = (take (length p) s = p)"

definition endswith :: "string \<Rightarrow> string \<Rightarrow> bool" where
  "endswith s p = (length p \<le> length s \<and> drop (length s - length p) s = p)"

definition removeprefix :: "string \<Rightarrow> string \<Rightarrow> string" where
  "removeprefix s p = (if startswith s p then drop (length p) s else s)"

definition removesuffix :: "string \<Rightarrow> string \<Rightarrow> string" where
  "removesuffix s p = (if p \<noteq> [] \<and> endswith s p then take (length s - length p) s else s)"

definition remove_spaces :: "string \<Rightarrow> string" where
  "remove_spaces s = filter (\<lambda>c. c \<noteq> CHR '' '') s"

fun is_substring :: "string \<Rightarrow> string \<Rightarrow> bool" where
  "is_substring a [] = (a = [])"
| "is_substring a (c # cs) = (startswith (c # cs) a \<or> is_substring a cs)"

section \<open>The field normalizer of \<^verbatim>\<open>tests/models/test_model_schemas.py\<close>\<close>

text \<open>
  \<^verbatim>\<open>sub_only_text(repl, string)\<close> is
  \<^verbatim>\<open>re.sub(r"([a-zA-Z_-]+)", lambda m: repl(m.group(0)), string)\<close>: every maximal run of
  letters, underscores and hyphens is replaced by \<^verbatim>\<open>repl\<close> of the run, the other
  characters stay.
\<close>

definition is_text_char :: "char \<Rightarrow> bool" where
  "is_text_char c = (c \<in> set ''abcdefghijklmnopqrstuvwxyzABCDEFGHIJKLMNOPQRSTUVWXYZ_-'')"

fun sub_runs :: "(string \<Rightarrow> string) \<Rightarrow> string \<Rightarrow> string \<Rightarrow> string" where
  "sub_runs repl run [] = (if run = [] then [] else repl run)"
| "sub_runs repl run (c # cs) =
     (if is_text_char c then sub_runs repl (run @ [c]) cs
      else (if run = [] then [] else repl run) @ c # sub_runs repl [] cs)"

definition sub_only_text :: "(string \<Rightarrow> string) \<Rightarrow> string \<Rightarrow> string" where
  "sub_only_text repl string = sub_runs repl [] string"

text \<open>
  The module imports two pattern constants and the kebab-casing helper from modules
  that are not among the sources at hand; the normalizer takes them from an environment.
  The loop \<^verbatim>\<open>for quantifier in {"anyOf", "allOf"} & set(obj)\<close> runs over a Python set,
  whose iteration order is not fixed by the language: the environment also says which
  of the two keys comes first.
\<close>

record env =
  MEX_ID_PATTERN :: string
  TIMESTAMP_REGEX :: string
  dromedary_to_kebab :: "string \<Rightarrow> string"
  anyOf_first :: bool

text \<open>
  Modelled from the spec: the imported constants \<^verbatim>\<open>MEX_ID_PATTERN\<close> and
  \<^verbatim>\<open>TIMESTAMP_REGEX\<close> and the helper \<^verbatim>\<open>dromedary_to_kebab\<close> are missing from the sources;
  the spec says only that the first two are fixed regular expressions and that the last
  turns a reference path into kebab-case token by token. The sample environment fixes
  one such choice (a hyphen before every capital letter but the first, and lower case),
  for evaluating the normalizer at concrete fragments.
\<close>

definition lower :: "char \<Rightarrow> char" where
  "lower c =
     (case map_of (zip ''ABCDEFGHIJKLMNOPQRSTUVWXYZ'' ''abcdefghijklmnopqrstuvwxyz'') c of
        None \<Rightarrow> c
      | Some l \<Rightarrow> l)"

fun kebab_chars :: "bool \<Rightarrow> string \<Rightarrow> string" where
  "kebab_chars first [] = []"
| "kebab_chars first (c # cs) =
     (if lower c \<noteq> c
      then (if first then [] else ''-'') @ lower c # kebab_chars False cs
      else c # kebab_chars False cs)"

definition sample_kebab :: "string \<Rightarrow> string" where
  "sample_kebab s = kebab_chars True s"

definition sample_env :: env where
  "sample_env =
     \<lparr> MEX_ID_PATTERN = ''^[a-zA-Z0-9]{14,22}$'',
       TIMESTAMP_REGEX = ''^[0-9]{4}(-[0-9]{2}){0,2}$'',
       dromedary_to_kebab = sample_kebab,
       anyOf_first = True \<rparr>"

text \<open>
  \<^verbatim>\<open>deduplicate_dicts\<close> replaces \<^verbatim>\<open>dct[key]\<close> by
  \<^verbatim>\<open>[json.loads(s) for s in dict.fromkeys(json.dumps(d) for d in dct[key])]\<close>.
  On JSON trees \<^verbatim>\<open>json.dumps\<close> is injective and \<^verbatim>\<open>json.loads\<close> is its inverse, so a
  value stands for its own serialisation: \<^verbatim>\<open>dict.fromkeys\<close> keeps the first occurrence
  of every value, in order. Iterating a dictionary yields its keys, iterating a string
  its characters. \<^verbatim>\<open>dissolve_single_item_lists\<close> is
  \<^verbatim>\<open>if len(dct[key]) == 1 and isinstance(dct[key][0], dict): dct.update(dct.pop(key)[0])\<close>.
\<close>

definition quantifier_order :: "env \<Rightarrow> string list" where
  "quantifier_order E = (if anyOf_first E then [''anyOf'', ''allOf''] else [''allOf'', ''anyOf''])"

definition fromkeys :: "json list \<Rightarrow> json list" where
  "fromkeys xs = map fst (fold (\<lambda>x acc. AList.update x () acc) xs [])"

fun py_iter :: "json \<Rightarrow> error + json list" where
  "py_iter (JList xs) = Inr xs"
| "py_iter (JDict m) = Inr (map (\<lambda>p. JStr (fst p)) m)"
| "py_iter (JStr s) = Inr (map (\<lambda>c. JStr [c]) s)"
| "py_iter v = Inl TypeError"

definition deduplicate_dicts :: "pydict \<Rightarrow> string \<Rightarrow> error + pydict" where
  "deduplicate_dicts dct key =
     (case dict_get dct key of
        None \<Rightarrow> Inl KeyError
      | Some v \<Rightarrow>
          (case py_iter v of
             Inl e \<Rightarrow> Inl e
           | Inr xs \<Rightarrow> Inr (dict_set key (JList (fromkeys xs)) dct)))"

definition dissolve_single_item_lists :: "pydict \<Rightarrow> string \<Rightarrow> pydict" where
  "dissolve_single_item_lists dct key =
     (case dict_get dct key of
        Some (JList [JDict item]) \<Rightarrow> dict_update (dict_pop key dct) item
      | _ \<Rightarrow> dct)"

text \<open>
  The body of \<^verbatim>\<open>prepare_field\<close> for a dictionary, block by block as the source
  comments them: discard the ignorable annotations, pop \<^verbatim>\<open>title\<close> and \<^verbatim>\<open>useScheme\<close>
  (\<^verbatim>\<open>use_scheme.removeprefix\<close> needs a string), unify dates, align identifier
  references (\<^verbatim>\<open>obj.pop("type")\<close> has no default, \<^verbatim>\<open>title.removesuffix\<close> needs a
  string), align concept references, kebab-case the reference (\<^verbatim>\<open>re.sub\<close> needs a
  string).
\<close>

definition discard_annotations :: "pydict \<Rightarrow> pydict" where
  "discard_annotations obj =
     dict_pop ''description'' (dict_pop ''subPropertyOf'' (dict_pop ''sameAs'' obj))"

definition pop_default :: "string \<Rightarrow> json \<Rightarrow> pydict \<Rightarrow> json" where
  "pop_default k dflt obj = (case dict_get obj k of None \<Rightarrow> dflt | Some v \<Rightarrow> v)"

definition is_date :: "env \<Rightarrow> pydict \<Rightarrow> bool" where
  "is_date E obj =
     (dict_get obj ''format'' = Some (JStr ''date'')
      \<or> dict_get obj ''format'' = Some (JStr ''date-time'')
      \<or> dict_get obj ''pattern'' = Some (JStr (TIMESTAMP_REGEX E)))"

definition unify_dates :: "env \<Rightarrow> pydict \<Rightarrow> pydict" where
  "unify_dates E obj =
     (if is_date E obj
      then dict_set ''format'' (JStr ''date-time'')
             (dict_pop ''pattern'' (dict_pop ''examples'' obj))
      else obj)"

definition entity_name :: "string \<Rightarrow> string" where
  "entity_name title =
     removeprefix (removeprefix (removesuffix title ''Identifier'') ''Merged'') ''Extracted''"

definition is_identifier :: "env \<Rightarrow> pydict \<Rightarrow> bool" where
  "is_identifier E obj = (dict_get obj ''pattern'' = Some (JStr (MEX_ID_PATTERN E)))"

definition universal_field :: "string \<Rightarrow> bool" where
  "universal_field field = (field = ''identifier'' \<or> field = ''stableTargetId'')"

definition align_identifier :: "env \<Rightarrow> string \<Rightarrow> json \<Rightarrow> pydict \<Rightarrow> error + pydict" where
  "align_identifier E field title obj =
     (if is_identifier E obj then
        (if \<not> dict_has (dict_pop ''pattern'' obj) ''type'' then Inl KeyError
         else
           (let obj' = dict_pop ''type'' (dict_pop ''pattern'' obj) in
            if universal_field field
            then Inr (dict_set ''$ref'' (JStr ''/schema/fields/identifier'') obj')
            else (case title of
                    JStr t \<Rightarrow> Inr (dict_set ''$ref''
                        (JStr (''/schema/entities/'' @ entity_name t @ ''#/identifier'')) obj')
                  | _ \<Rightarrow> Inl AttributeError)))
      else Inr obj)"

definition align_concept :: "string \<Rightarrow> pydict \<Rightarrow> pydict" where
  "align_concept vocabulary obj =
     (if dict_get obj ''$ref'' = Some (JStr ''/schema/entities/concept#/identifier'')
      then dict_set ''$ref'' (JStr (''/schema/fields/'' @ vocabulary)) obj
      else obj)"

definition kebab_ref :: "env \<Rightarrow> pydict \<Rightarrow> error + pydict" where
  "kebab_ref E obj =
     (case dict_get obj ''$ref'' of
        None \<Rightarrow> Inr obj
      | Some (JStr r) \<Rightarrow> Inr (dict_set ''$ref'' (JStr (sub_only_text (dromedary_to_kebab E) r)) obj)
      | Some _ \<Rightarrow> Inl TypeError)"

definition prepare_head :: "env \<Rightarrow> string \<Rightarrow> pydict \<Rightarrow> error + pydict" where
  "prepare_head E field obj0 =
     (let obj1 = discard_annotations obj0;
          title = pop_default ''title'' (JStr []) obj1;
          obj2 = dict_pop ''title'' obj1;
          use_scheme = pop_default ''useScheme'' (JStr []) obj2;
          obj3 = dict_pop ''useScheme'' obj2
      in case use_scheme of
           JStr u \<Rightarrow>
             (case align_identifier E field title (unify_dates E obj3) of
                Inl e \<Rightarrow> Inl e
              | Inr obj4 \<Rightarrow>
                  kebab_ref E (align_concept (removeprefix u ''https://mex.rki.de/item/'') obj4))
         | _ \<Rightarrow> Inl AttributeError)"

text \<open>
  \<^verbatim>\<open>prepare_field(field, obj)\<close>. The result is the fragment as the call leaves it, or
  the exception it raises. A list has every item prepared and the falsy items dropped;
  a dictionary goes through \<open>prepare_head\<close>, then the array items, then the union
  containers present; any other value has no \<^verbatim>\<open>pop\<close> method. The second union
  container may hold a value that the dissolution of the first one has just spliced in,
  so the recursion is nested and its termination is proved below from a weight that no
  step increases: the number of lists and dictionaries in a value.
\<close>

fun weight :: "json \<Rightarrow> nat" where
  "weight (JList xs) = Suc (sum_list (map weight xs))"
| "weight (JDict d) = Suc (sum_list (map (\<lambda>p. weight (snd p)) d))"
| "weight v = 0"

definition dict_weight :: "pydict \<Rightarrow> nat" where
  "dict_weight d = sum_list (map (\<lambda>p. weight (snd p)) d)"

definition list_weight :: "json list \<Rightarrow> nat" where
  "list_weight xs = sum_list (map weight xs)"

fun is_container :: "json \<Rightarrow> bool" where
  "is_container (JList xs) = True"
| "is_container (JDict d) = True"
| "is_container v = False"

function prepare_field :: "env \<Rightarrow> string \<Rightarrow> json \<Rightarrow> error + json"
  and prepare_items :: "env \<Rightarrow> string \<Rightarrow> json list \<Rightarrow> error + json list"
  and prepare_quantifiers :: "env \<Rightarrow> string \<Rightarrow> string list \<Rightarrow> pydict \<Rightarrow> error + pydict"
where
  "prepare_field E field (JList obj) =
     (case prepare_items E field obj of
        Inl e \<Rightarrow> Inl e
      | Inr items \<Rightarrow> Inr (JList (filter truthy items)))"
| "prepare_field E field (JDict obj0) =
     (case prepare_head E field obj0 of
        Inl e \<Rightarrow> Inl e
      | Inr obj \<Rightarrow>
          (case (if dict_get obj ''type'' = Some (JStr ''array'')
                 then (case dict_get obj ''items'' of
                         None \<Rightarrow> Inl KeyError
                       | Some items \<Rightarrow>
                           (case prepare_field E field items of
                              Inl e \<Rightarrow> Inl e
                            | Inr items' \<Rightarrow> Inr (dict_set ''items'' items' obj)))
                 else Inr obj) of
             Inl e \<Rightarrow> Inl e
           | Inr obj' \<Rightarrow>
               (case prepare_quantifiers E field
                       (filter (dict_has obj') (quantifier_order E)) obj' of
                  Inl e \<Rightarrow> Inl e
                | Inr res \<Rightarrow> Inr (JDict res))))"
| "prepare_field E field JNull = Inl AttributeError"
| "prepare_field E field (JBool b) = Inl AttributeError"
| "prepare_field E field (JInt n) = Inl AttributeError"
| "prepare_field E field (JStr s) = Inl AttributeError"
| "prepare_items E field [] = Inr []"
| "prepare_items E field (item # rest) =
     (case prepare_field E field item of
        Inl e \<Rightarrow> Inl e
      | Inr item' \<Rightarrow>
          (case prepare_items E field rest of
             Inl e \<Rightarrow> Inl e
           | Inr rest' \<Rightarrow> Inr (item' # rest')))"
| "prepare_quantifiers E field [] obj = Inr obj"
| "prepare_quantifiers E field (quantifier # rest) obj =
     (case dict_get obj quantifier of
        None \<Rightarrow> Inl KeyError
      | Some choices \<Rightarrow>
          (case prepare_field E field choices of
             Inl e \<Rightarrow> Inl e
           | Inr choices' \<Rightarrow>
               (case deduplicate_dicts (dict_set quantifier choices' obj) quantifier of
                  Inl e \<Rightarrow> Inl e
                | Inr obj' \<Rightarrow>
                    prepare_quantifiers E field rest
                      (dissolve_single_item_lists obj' quantifier))))"
  by pat_completeness auto



subsection \<open>Notions for the proofs\<close>

text \<open>
  The first two phases of \<^verbatim>\<open>prepare_field\<close> on a dictionary, the rules on the
  dictionary itself and the recursion into the array items, before the loop over the
  union containers.
\<close>

definition prepare_front :: "env \<Rightarrow> string \<Rightarrow> pydict \<Rightarrow> error + pydict" where
  "prepare_front E field obj0 =
     (case prepare_head E field obj0 of
        Inl e \<Rightarrow> Inl e
      | Inr obj \<Rightarrow>
          (if dict_get obj ''type'' = Some (JStr ''array'')
           then (case dict_get obj ''items'' of
                   None \<Rightarrow> Inl KeyError
                 | Some items \<Rightarrow>
                     (case prepare_field E field items of
                        Inl e \<Rightarrow> Inl e
                      | Inr items' \<Rightarrow> Inr (dict_set ''items'' items' obj)))
           else Inr obj))"

text \<open>
  An operation on one key \<open>q\<close> of a dictionary that holds \<open>q\<close>, such as popping it or
  assigning to it, leaves the other keys alone and commutes with popping and assigning
  any other key.
\<close>

definition frame_op :: "string \<Rightarrow> (pydict \<Rightarrow> pydict) \<Rightarrow> bool" where
  "frame_op q T =
     (\<forall>d k. dict_has d q \<and> k \<noteq> q \<longrightarrow>
        dict_get (T d) k = dict_get d k
        \<and> T (dict_pop k d) = dict_pop k (T d)
        \<and> (\<forall>v. T (dict_set k v d) = dict_set k v (T d)))"

definition head_key :: "string \<Rightarrow> bool" where
  "head_key k = (k \<in> set [''sameAs'', ''subPropertyOf'', ''description'', ''title'', ''useScheme'',
                   ''examples'', ''pattern'', ''format'', ''type'', ''$ref''])"

definition union_key :: "string \<Rightarrow> bool" where
  "union_key q = (q = ''anyOf'' \<or> q = ''allOf'')"

definition other_union_key :: "string \<Rightarrow> string" where
  "other_union_key q = (if q = ''anyOf'' then ''allOf'' else ''anyOf'')"

subsection \<open>Shapes of fragments\<close>

text \<open>
  A dictionary matches no normalization rule when it carries none of the keys that the
  normalizer pops, rewrites or descends into, declares no date and no identifier, and is
  not an array.
\<close>

definition matches_no_rule :: "env \<Rightarrow> pydict \<Rightarrow> bool" where
  "matches_no_rule E d =
     ((\<forall>k \<in> set [''sameAs'', ''subPropertyOf'', ''description'', ''title'', ''useScheme'',
                   ''$ref'', ''anyOf'', ''allOf'']. \<not> dict_has d k)
      \<and> \<not> is_date E d \<and> \<not> is_identifier E d
      \<and> dict_get d ''type'' \<noteq> Some (JStr ''array''))"

text \<open>
  The identifier rewrite runs after the date unification, which pops \<^verbatim>\<open>pattern\<close>: it
  fires on a fragment that declares the identifier pattern and no date.
\<close>

definition identifier_fires :: "env \<Rightarrow> pydict \<Rightarrow> bool" where
  "identifier_fires E d = (is_identifier E d \<and> \<not> is_date E d)"

fun str_or_absent :: "json option \<Rightarrow> bool" where
  "str_or_absent None = True"
| "str_or_absent (Some (JStr s)) = True"
| "str_or_absent (Some v) = False"

text \<open>The string that \<^verbatim>\<open>obj.pop(key, "")\<close> yields when the key is absent or holds a string.\<close>

definition str_value :: "json option \<Rightarrow> string" where
  "str_value v = (case v of Some (JStr s) \<Rightarrow> s | _ \<Rightarrow> [])"

text \<open>
  A well-formed fragment, for a field name: a list of well-formed fragments, or a
  dictionary in which \<^verbatim>\<open>useScheme\<close> is a string when present; an identifier pattern
  comes with a \<^verbatim>\<open>type\<close> and, unless the field is a universal identifier field, with a
  \<^verbatim>\<open>title\<close> that is a string when present; a \<^verbatim>\<open>$ref\<close> that is not rewritten is a
  string; an array has well-formed \<^verbatim>\<open>items\<close>; at most one of \<^verbatim>\<open>anyOf\<close> and \<^verbatim>\<open>allOf\<close> is
  present and its value is well-formed.
\<close>

fun well_formed :: "env \<Rightarrow> string \<Rightarrow> json \<Rightarrow> bool" where
  "well_formed E field (JList xs) = (\<forall>x \<in> set xs. well_formed E field x)"
| "well_formed E field (JDict d) =
     (str_or_absent (dict_get d ''useScheme'')
      \<and> (identifier_fires E d \<longrightarrow>
            dict_has d ''type''
            \<and> (universal_field field \<or> str_or_absent (dict_get d ''title'')))
      \<and> (\<not> identifier_fires E d \<longrightarrow> str_or_absent (dict_get d ''$ref''))
      \<and> (\<not> identifier_fires E d \<and> dict_get d ''type'' = Some (JStr ''array'') \<longrightarrow>
            dict_has d ''items'')
      \<and> \<not> (dict_has d ''anyOf'' \<and> dict_has d ''allOf'')
      \<and> (\<forall>p \<in> set d.
            (fst p = ''items'' \<and> \<not> identifier_fires E d
               \<and> dict_get d ''type'' = Some (JStr ''array'') \<longrightarrow> well_formed E field (snd p))
            \<and> (fst p = ''anyOf'' \<or> fst p = ''allOf'' \<longrightarrow> well_formed E field (snd p))))"
| "well_formed E field v = False"

text \<open>A fragment without union containers, at every level the normalizer descends to.\<close>

fun union_free :: "json \<Rightarrow> bool" where
  "union_free (JList xs) = (\<forall>x \<in> set xs. union_free x)"
| "union_free (JDict d) =
     (\<not> dict_has d ''anyOf'' \<and> \<not> dict_has d ''allOf''
      \<and> (\<forall>p \<in> set d. fst p = ''items'' \<longrightarrow> union_free (snd p)))"
| "union_free v = True"

text \<open>
  A fragment whose references are settled: every \<^verbatim>\<open>$ref\<close> is a string that the
  kebab-casing leaves as it is and that is not the generic concept reference.
\<close>

definition ref_settled :: "env \<Rightarrow> pydict \<Rightarrow> bool" where
  "ref_settled E d =
     (case dict_get d ''$ref'' of
        None \<Rightarrow> True
      | Some (JStr r) \<Rightarrow>
          r \<noteq> ''/schema/entities/concept#/identifier''
          \<and> sub_only_text (dromedary_to_kebab E) r = r
      | Some v \<Rightarrow> False)"

fun refs_settled :: "env \<Rightarrow> json \<Rightarrow> bool" where
  "refs_settled E (JList xs) = (\<forall>x \<in> set xs. refs_settled E x)"
| "refs_settled E (JDict d) =
     (ref_settled E d \<and> (\<forall>p \<in> set d. fst p = ''items'' \<longrightarrow> refs_settled E (snd p)))"
| "refs_settled E v = True"

section \<open>The schema loader\<close>

text \<open>
  \<^verbatim>\<open>
  SPECIFIED_SCHEMAS = dict(sorted({
      schema["title"].replace(" ", ""): schema
      for file_name in SPECIFIED_SCHEMA_PATH.glob("*.json")
      if (schema := json.load(open(file_name, encoding="utf-8")))
      and not schema["title"].startswith("Concept")
  }.items()))
  \<close>
  A file is the document that \<^verbatim>\<open>json.load\<close> reads from it, or nothing when its text is
  not JSON (\<^verbatim>\<open>json.load\<close> raises \<^verbatim>\<open>JSONDecodeError\<close>). The comprehension reads the files
  in the order of the directory listing and stops at the first exception; a falsy
  document ends the filter condition before \<^verbatim>\<open>schema["title"]\<close> is evaluated.
  Strings are compared character by character, by code point.
\<close>

fun load_entries :: "pydict \<Rightarrow> json option list \<Rightarrow> error + pydict" where
  "load_entries acc [] = Inr acc"
| "load_entries acc (None # files) = Inl JSONDecodeError"
| "load_entries acc (Some schema # files) =
     (if \<not> truthy schema then load_entries acc files
      else (case py_getitem schema ''title'' of
              Inl e \<Rightarrow> Inl e
            | Inr (JStr title) \<Rightarrow>
                if startswith title ''Concept'' then load_entries acc files
                else load_entries (dict_set (remove_spaces title) schema acc) files
            | Inr v \<Rightarrow> Inl AttributeError))"

fun str_le :: "string \<Rightarrow> string \<Rightarrow> bool" where
  "str_le [] b = True"
| "str_le (c # cs) [] = False"
| "str_le (c # cs) (d # ds) = (if c = d then str_le cs ds else (of_char c :: nat) < of_char d)"

fun insert_item :: "string \<times> json \<Rightarrow> pydict \<Rightarrow> pydict" where
  "insert_item p [] = [p]"
| "insert_item p (q # qs) = (if str_le (fst q) (fst p) then q # insert_item p qs else p # q # qs)"

definition sorted_items :: "pydict \<Rightarrow> pydict" where
  "sorted_items d = foldr insert_item (rev d) []"

definition SPECIFIED_SCHEMAS :: "json option list \<Rightarrow> error + pydict" where
  "SPECIFIED_SCHEMAS files =
     (case load_entries [] files of Inl e \<Rightarrow> Inl e | Inr d \<Rightarrow> Inr (sorted_items d))"

section \<open>The comparator: \<^verbatim>\<open>test_entity_type_matches_class_name\<close>\<close>

text \<open>
  \<^verbatim>\<open>
  assert generated["title"] == generated["properties"]["$type"]["const"]
  assert (
      specified["title"].replace(" ", "") in generated["properties"]["$type"]["const"]
  )
  \<close>
  A test passes when it returns, fails when an \<^verbatim>\<open>assert\<close> does not hold, and breaks when
  another exception is raised. \<^verbatim>\<open>==\<close> on JSON values ignores the order of dictionary
  keys and identifies \<^verbatim>\<open>True\<close> with \<^verbatim>\<open>1\<close> and \<^verbatim>\<open>False\<close> with \<^verbatim>\<open>0\<close>; \<^verbatim>\<open>a in b\<close> for a string
  \<^verbatim>\<open>a\<close> is the substring test on a string, membership in a list, key membership in a
  dictionary and a \<^verbatim>\<open>TypeError\<close> otherwise.
\<close>

datatype outcome = Passed | AssertionFailed | Raised error

fun py_eq :: "json \<Rightarrow> json \<Rightarrow> bool" where
  "py_eq (JList xs) (JList ys) = list_all2 py_eq xs ys"
| "py_eq (JDict a) (JDict b) =
     (fst ` set a = fst ` set b
      \<and> (\<forall>p \<in> set a. dict_get a (fst p) = Some (snd p) \<longrightarrow>
            (case dict_get b (fst p) of None \<Rightarrow> False | Some w \<Rightarrow> py_eq (snd p) w)))"
| "py_eq (JBool p) (JInt n) = ((if p then 1 else 0) = n)"
| "py_eq (JInt n) (JBool p) = (n = (if p then 1 else 0))"
| "py_eq x y = (x = y)"

fun py_in :: "string \<Rightarrow> json \<Rightarrow> error + bool" where
  "py_in a (JStr b) = Inr (is_substring a b)"
| "py_in a (JList xs) = Inr (JStr a \<in> set xs)"
| "py_in a (JDict d) = Inr (dict_has d a)"
| "py_in a v = Inl TypeError"

definition discriminant_const :: "json \<Rightarrow> error + json" where
  "discriminant_const generated =
     (case py_getitem generated ''properties'' of
        Inl e \<Rightarrow> Inl e
      | Inr props \<Rightarrow>
          (case py_getitem props ''$type'' of
             Inl e \<Rightarrow> Inl e
           | Inr ty \<Rightarrow> py_getitem ty ''const''))"

definition test_entity_type_matches_class_name :: "json \<Rightarrow> json \<Rightarrow> outcome" where
  "test_entity_type_matches_class_name generated specified =
     (case py_getitem generated ''title'' of
        Inl e \<Rightarrow> Raised e
      | Inr title \<Rightarrow>
          (case discriminant_const generated of
             Inl e \<Rightarrow> Raised e
           | Inr const \<Rightarrow>
               if \<not> py_eq title const then AssertionFailed
               else (case py_getitem specified ''title'' of
                       Inl e \<Rightarrow> Raised e
                     | Inr (JStr stitle) \<Rightarrow>
                         (case py_in (remove_spaces stitle) const of
                            Inl e \<Rightarrow> Raised e
                          | Inr b \<Rightarrow> if b then Passed else AssertionFailed)
                     | Inr v \<Rightarrow> Raised AttributeError)))"

text \<open>The spec's wording of the second condition removes all whitespace from the title:
  space, tab, line feed, vertical tab, form feed and carriage return.\<close>

definition remove_whitespace_spec :: "string \<Rightarrow> string" where
  "remove_whitespace_spec s =
     filter (\<lambda>c. c \<notin> set [CHR '' '', CHR 0x09, CHR 0x0A, CHR 0x0B, CHR 0x0C, CHR 0x0D]) s"

definition discriminant_check_spec :: "json \<Rightarrow> json \<Rightarrow> bool" where
  "discriminant_check_spec generated specified =
     (case (discriminant_const generated, py_getitem generated ''title'',
            py_getitem specified ''title'') of
        (Inr (JStr const), Inr (JStr title), Inr (JStr stitle)) \<Rightarrow>
          const = title \<and> is_substring (remove_whitespace_spec stitle) const
      | _ \<Rightarrow> False)"

section \<open>Settings: \<^verbatim>\<open>BaseSettings.get\<close>\<close>

text \<open>
  \<^verbatim>\<open>
  settings = SettingsContext.get()
  if settings is None:
      settings = cls.parse_obj({})
      SettingsContext.set(settings)
  if isinstance(settings, cls):
      return settings
  raise RuntimeError(f"Requested {cls} but already loaded {type(settings)}")
  \<close>
  A settings class has a name and the names of its proper ancestors; an instance has an
  identity and a class. The state is the value of the context variable and the next free
  identity. Whether \<^verbatim>\<open>cls.parse_obj({})\<close> validates depends on the environment variables
  and files that pydantic reads: the model takes that as a parameter, and a failed
  validation raises before the context is set.
\<close>

record settings_class =
  class_name :: string
  ancestors :: "string list"

record settings_instance =
  ident :: nat
  class_of :: settings_class

record settings_state =
  SettingsContext :: "settings_instance option"
  next_ident :: nat

definition isinstance :: "settings_instance \<Rightarrow> settings_class \<Rightarrow> bool" where
  "isinstance settings cls =
     (class_name cls = class_name (class_of settings)
      \<or> class_name cls \<in> set (ancestors (class_of settings)))"

definition get :: "(settings_class \<Rightarrow> bool) \<Rightarrow> settings_class \<Rightarrow> settings_state
    \<Rightarrow> (error + settings_instance) \<times> settings_state" where
  "get validates cls st =
     (case SettingsContext st of
        None \<Rightarrow>
          if \<not> validates cls then (Inl ValidationError, st)
          else
            (let settings = \<lparr> ident = next_ident st, class_of = cls \<rparr>;
                 st' = \<lparr> SettingsContext = Some settings, next_ident = Suc (next_ident st) \<rparr>
             in if isinstance settings cls then (Inr settings, st')
                else (Inl RuntimeError, st'))
      | Some settings \<Rightarrow>
          if isinstance settings cls then (Inr settings, st)
          else (Inl RuntimeError, st))"

section \<open>Wikidata claims: \<^verbatim>\<open>DataValue.transform_strings_to_dict\<close>\<close>

text \<open>
  \<^verbatim>\<open>
  value = values.get("value")
  if value is None or isinstance(value, str):
      return {"value": {"language": None, "text": value}}
  return values
  \<close>
\<close>

fun none_or_str :: "json \<Rightarrow> bool" where
  "none_or_str JNull = True"
| "none_or_str (JStr s) = True"
| "none_or_str v = False"

definition transform_strings_to_dict :: "pydict \<Rightarrow> pydict" where
  "transform_strings_to_dict values =
     (let value = (case dict_get values ''value'' of None \<Rightarrow> JNull | Some v \<Rightarrow> v) in
      if none_or_str value
      then [(''value'', JDict [(''language'', JNull), (''text'', value)])]
      else values)"

section \<open>Termination of the normalizer\<close>

lemma dict_weight_delete: "dict_weight (AList.delete k d) \<le> dict_weight d"
  by (induction d) (auto simp: dict_weight_def)

lemma dict_weight_pop [simp]: "dict_weight (dict_pop k d) \<le> dict_weight d"
  by (simp add: dict_pop_def dict_weight_delete)

lemma dict_weight_pop_get:
  "dict_get d k = Some v \<Longrightarrow> dict_weight (dict_pop k d) + weight v \<le> dict_weight d"
proof (induction d)
  case Nil
  then show ?case by (simp add: dict_get_def)
next
  case (Cons p d)
  show ?case
  proof (cases "fst p = k")
    case True
    with Cons.prems have "snd p = v" by (cases p) (simp add: dict_get_def)
    with True show ?thesis
      using dict_weight_delete[of k d] by (cases p) (simp add: dict_pop_def dict_weight_def)
  next
    case False
    with Cons show ?thesis by (cases p) (simp add: dict_pop_def dict_weight_def dict_get_def)
  qed
qed

lemma dict_weight_set: "dict_weight (dict_set k v d) \<le> dict_weight d + weight v"
  by (induction d) (auto simp: dict_weight_def dict_set_def)

lemma dict_weight_set_str [simp]: "dict_weight (dict_set k (JStr s) d) \<le> dict_weight d"
  using dict_weight_set[of k "JStr s" d] by simp

lemma dict_weight_set_get:
  "dict_get d k = Some v \<Longrightarrow> dict_weight (dict_set k v' d) + weight v = dict_weight d + weight v'"
  by (induction d) (auto simp: dict_weight_def dict_set_def dict_get_def)

lemma dict_weight_get: "dict_get d k = Some v \<Longrightarrow> weight v \<le> dict_weight d"
  by (induction d) (auto simp: dict_weight_def dict_get_def split: if_splits)

lemma dict_weight_update: "dict_weight (dict_update d other) \<le> dict_weight d + dict_weight other"
proof (induction other arbitrary: d)
  case Nil
  then show ?case by (simp add: dict_update_def dict_weight_def)
next
  case (Cons p other)
  obtain k v where p: "p = (k, v)" by (cases p)
  have "dict_weight (dict_update (dict_set k v d) other)
          \<le> dict_weight (dict_set k v d) + dict_weight other"
    by (rule Cons.IH)
  also have "\<dots> \<le> dict_weight d + weight v + dict_weight other"
    using dict_weight_set[of k v d] by simp
  finally show ?case by (simp add: p dict_update_def dict_weight_def)
qed

lemma list_weight_fold_keys:
  "list_weight (map fst (fold (\<lambda>x acc. AList.update x () acc) xs acc))
     \<le> list_weight (map fst acc) + list_weight xs"
proof (induction xs arbitrary: acc)
  case Nil
  then show ?case by simp
next
  case (Cons x xs)
  have step: "list_weight (map fst (AList.update x () acc)) \<le> list_weight (map fst acc) + weight x"
    by (induction acc) (auto simp: list_weight_def)
  have "list_weight (map fst (fold (\<lambda>x acc. AList.update x () acc) xs (AList.update x () acc)))
          \<le> list_weight (map fst (AList.update x () acc)) + list_weight xs"
    by (rule Cons.IH)
  with step show ?case by (simp add: list_weight_def)
qed

lemma list_weight_fromkeys: "list_weight (fromkeys xs) \<le> list_weight xs"
  using list_weight_fold_keys[of xs "[]"] by (simp add: fromkeys_def list_weight_def)

lemma list_weight_filter: "list_weight (filter P xs) \<le> list_weight xs"
  by (induction xs) (auto simp: list_weight_def)

lemma weight_py_iter:
  "is_container v \<Longrightarrow> py_iter v = Inr xs \<Longrightarrow> Suc (list_weight xs) \<le> weight v"
  by (cases v) (auto simp: list_weight_def comp_def)

lemma dict_weight_discard [simp]: "dict_weight (discard_annotations d) \<le> dict_weight d"
  unfolding discard_annotations_def
  by (meson dict_weight_pop order_trans)

lemma dict_weight_unify_dates: "dict_weight (unify_dates E d) \<le> dict_weight d"
  unfolding unify_dates_def
  by (auto intro: order_trans[OF dict_weight_set_str] order_trans[OF dict_weight_pop])

lemma dict_weight_align_identifier:
  "align_identifier E f t d = Inr d' \<Longrightarrow> dict_weight d' \<le> dict_weight d"
  unfolding align_identifier_def Let_def
  by (auto split: if_splits json.splits
      intro: order_trans[OF dict_weight_set_str] order_trans[OF dict_weight_pop])

lemma dict_weight_align_concept: "dict_weight (align_concept v d) \<le> dict_weight d"
  unfolding align_concept_def by auto

lemma dict_weight_kebab_ref: "kebab_ref E d = Inr d' \<Longrightarrow> dict_weight d' \<le> dict_weight d"
  unfolding kebab_ref_def by (auto split: option.splits json.splits)

lemma dict_weight_prepare_head:
  assumes "prepare_head E f d = Inr h"
  shows "dict_weight h \<le> dict_weight d"
proof -
  let ?d3 = "dict_pop ''useScheme'' (dict_pop ''title'' (discard_annotations d))"
  from assms obtain u d4 where
    a: "align_identifier E f (pop_default ''title'' (JStr []) (discard_annotations d))
          (unify_dates E ?d3) = Inr d4"
    and k: "kebab_ref E (align_concept (removeprefix u ''https://mex.rki.de/item/'') d4) = Inr h"
    by (auto simp: prepare_head_def Let_def split: json.splits sum.splits)
  have "dict_weight h \<le> dict_weight d4"
    using dict_weight_kebab_ref[OF k] dict_weight_align_concept order_trans by blast
  also have "\<dots> \<le> dict_weight ?d3"
    using dict_weight_align_identifier[OF a] dict_weight_unify_dates order_trans by blast
  also have "\<dots> \<le> dict_weight d"
    by (meson dict_weight_pop dict_weight_discard order_trans)
  finally show ?thesis .
qed

lemma dict_weight_deduplicate:
  assumes "deduplicate_dicts d k = Inr d'" and "dict_get d k = Some v" and "is_container v"
  shows "dict_weight d' \<le> dict_weight d"
proof -
  from assms obtain xs where it: "py_iter v = Inr xs"
    and d': "d' = dict_set k (JList (fromkeys xs)) d"
    by (auto simp: deduplicate_dicts_def split: sum.splits)
  have "weight (JList (fromkeys xs)) \<le> weight v"
    using weight_py_iter[OF assms(3) it] list_weight_fromkeys[of xs]
    by (simp add: list_weight_def)
  with dict_weight_set_get[OF assms(2), of "JList (fromkeys xs)"] show ?thesis
    unfolding d' by linarith
qed

lemma dict_weight_dissolve: "dict_weight (dissolve_single_item_lists d k) \<le> dict_weight d"
proof (cases "\<exists>item. dict_get d k = Some (JList [JDict item])")
  case True
  then obtain item where g: "dict_get d k = Some (JList [JDict item])" by blast
  have "dict_weight (dict_update (dict_pop k d) item) \<le> dict_weight (dict_pop k d) + dict_weight item"
    by (rule dict_weight_update)
  with dict_weight_pop_get[OF g] show ?thesis
    by (simp add: dissolve_single_item_lists_def g dict_weight_def)
next
  case False
  then show ?thesis
    by (auto simp: dissolve_single_item_lists_def split: option.splits json.splits list.splits)
qed

lemma dict_get_set_same [simp]: "dict_get (dict_set k v d) k = Some v"
  by (simp add: dict_get_def dict_set_def update_conv')

lemma prepare_weight_dom:
  "prepare_field_prepare_items_prepare_quantifiers_dom (Inl (E, f, x)) \<Longrightarrow>
     prepare_field E f x = Inr y \<Longrightarrow> weight y \<le> weight x \<and> is_container y"
  "prepare_field_prepare_items_prepare_quantifiers_dom (Inr (Inl (E, f, xs))) \<Longrightarrow>
     prepare_items E f xs = Inr ys \<Longrightarrow> list_weight ys \<le> list_weight xs"
  "prepare_field_prepare_items_prepare_quantifiers_dom (Inr (Inr (E, f, qs, a))) \<Longrightarrow>
     prepare_quantifiers E f qs a = Inr r \<Longrightarrow> dict_weight r \<le> dict_weight a"
proof (induct arbitrary: y and ys and r
    rule: prepare_field_prepare_items_prepare_quantifiers.pinduct)
  case (1 E field obj)
  from "1.prems" "1.hyps"(1) obtain items where
    i: "prepare_items E field obj = Inr items" and y: "y = JList (filter truthy items)"
    by (auto simp: prepare_field.psimps split: sum.splits)
  have "list_weight (filter truthy items) \<le> list_weight items"
    by (rule list_weight_filter)
  also have "\<dots> \<le> list_weight obj"
    using "1.hyps"(2)[OF i] .
  finally show ?case
    by (simp add: y list_weight_def)
next
  case (2 E field obj0)
  from "2.prems" "2.hyps"(1) obtain obj obj' res where
    h: "prepare_head E field obj0 = Inr obj"
    and a: "(if dict_get obj ''type'' = Some (JStr ''array'')
            then (case dict_get obj ''items'' of
                    None \<Rightarrow> Inl KeyError
                  | Some items \<Rightarrow>
                      (case prepare_field E field items of
                         Inl e \<Rightarrow> Inl e
                       | Inr items' \<Rightarrow> Inr (dict_set ''items'' items' obj)))
            else Inr obj) = Inr obj'"
    and q: "prepare_quantifiers E field (filter (dict_has obj') (quantifier_order E)) obj' = Inr res"
    and y: "y = JDict res"
    by (auto simp: prepare_field.psimps split: sum.splits)
  have "dict_weight res \<le> dict_weight obj'"
    using "2.hyps"(3)[OF h a q] .
  moreover have "dict_weight obj' \<le> dict_weight obj"
  proof (cases "dict_get obj ''type'' = Some (JStr ''array'')")
    case True
    with a obtain items items' where
      i: "dict_get obj ''items'' = Some items"
      and p: "prepare_field E field items = Inr items'"
      and o: "obj' = dict_set ''items'' items' obj"
      by (auto split: option.splits sum.splits)
    have "weight items' \<le> weight items"
      using "2.hyps"(2)[OF h True i p] by simp
    with dict_weight_set_get[OF i, of items'] show ?thesis
      unfolding o by linarith
  next
    case False
    with a show ?thesis by simp
  qed
  moreover have "dict_weight obj \<le> dict_weight obj0"
    by (rule dict_weight_prepare_head[OF h])
  ultimately show ?case
    by (simp add: y dict_weight_def)
next
  case (8 E field item rest)
  from "8.prems" "8.hyps"(1) obtain item' rest' where
    i: "prepare_field E field item = Inr item'"
    and r: "prepare_items E field rest = Inr rest'"
    and ys: "ys = item' # rest'"
    by (auto simp: prepare_items.psimps split: sum.splits)
  from "8.hyps"(2)[OF i] "8.hyps"(3)[OF i r] show ?case
    by (simp add: ys list_weight_def)
next
  case (10 E field quantifier rest obj)
  from "10.prems" "10.hyps"(1) obtain choices choices' obj' where
    g: "dict_get obj quantifier = Some choices"
    and p: "prepare_field E field choices = Inr choices'"
    and d: "deduplicate_dicts (dict_set quantifier choices' obj) quantifier = Inr obj'"
    and r: "prepare_quantifiers E field rest (dissolve_single_item_lists obj' quantifier) = Inr r"
    by (auto simp: prepare_quantifiers.psimps split: option.splits sum.splits)
  have c: "weight choices' \<le> weight choices" "is_container choices'"
    using "10.hyps"(2)[OF g p] by simp_all
  have "dict_weight r \<le> dict_weight (dissolve_single_item_lists obj' quantifier)"
    using "10.hyps"(3)[OF g p d r] .
  also have "\<dots> \<le> dict_weight obj'"
    by (rule dict_weight_dissolve)
  also have "\<dots> \<le> dict_weight (dict_set quantifier choices' obj)"
    by (rule dict_weight_deduplicate[OF d _ c(2)]) simp
  also have "\<dots> \<le> dict_weight obj"
    using dict_weight_set_get[OF g, of choices'] c(1) by linarith
  finally show ?case .
qed (auto simp: prepare_field.psimps prepare_items.psimps prepare_quantifiers.psimps)

termination prepare_field
proof (relation "measures
    [\<lambda>a. case a of
        Inl (E, f, x) \<Rightarrow> weight x
      | Inr (Inl (E, f, xs)) \<Rightarrow> list_weight xs
      | Inr (Inr (E, f, qs, d)) \<Rightarrow> Suc (dict_weight d),
     \<lambda>a. case a of Inl _ \<Rightarrow> 1 | Inr (Inl _) \<Rightarrow> 2 | Inr (Inr _) \<Rightarrow> 0,
     \<lambda>a. case a of
        Inl _ \<Rightarrow> 0
      | Inr (Inl (E, f, xs)) \<Rightarrow> length xs
      | Inr (Inr (E, f, qs, d)) \<Rightarrow> length qs]", goal_cases)
  case 1
  then show ?case by simp
next
  case (2 E field obj)
  then show ?case by (simp add: list_weight_def)
next
  case (3 E field obj0 obj items)
  then show ?case
    using dict_weight_prepare_head[of E field obj0 obj] dict_weight_get[of obj "''items''" items]
    by (simp add: dict_weight_def)
next
  case (4 E field obj0 obj obj')
  have "dict_weight obj' \<le> dict_weight obj"
  proof (cases "dict_get obj ''type'' = Some (JStr ''array'')")
    case True
    with 4(2) obtain items items' where
      i: "dict_get obj ''items'' = Some items"
      and p: "prepare_field E field items = Inr items'"
      and o: "obj' = dict_set ''items'' items' obj"
      by (auto split: option.splits sum.splits)
    have "weight items' \<le> weight items"
      using prepare_weight_dom(1)[OF 4(3)[OF True i] p] by simp
    with dict_weight_set_get[OF i, of items'] show ?thesis
      unfolding o by linarith
  next
    case False
    with 4(2) show ?thesis by simp
  qed
  with dict_weight_prepare_head[OF 4(1)] have "dict_weight obj' \<le> dict_weight obj0"
    by linarith
  then show ?case
    by (auto simp: dict_weight_def)
next
  case (5 E field item rest)
  then show ?case by (auto simp: list_weight_def)
next
  case (6 E field item rest item')
  then show ?case by (auto simp: list_weight_def)
next
  case (7 E field quantifier rest obj choices)
  then show ?case
    using dict_weight_get[of obj quantifier choices] by simp
next
  case (8 E field quantifier rest obj choices choices' obj')
  have c: "weight choices' \<le> weight choices" "is_container choices'"
    using prepare_weight_dom(1)[OF 8(4) 8(2)] by simp_all
  have "dict_weight (dissolve_single_item_lists obj' quantifier) \<le> dict_weight obj'"
    by (rule dict_weight_dissolve)
  also have "\<dots> \<le> dict_weight (dict_set quantifier choices' obj)"
    by (rule dict_weight_deduplicate[OF 8(3) _ c(2)]) simp
  also have "\<dots> \<le> dict_weight obj"
    using dict_weight_set_get[OF 8(1), of choices'] c(1) by linarith
  finally show ?case by auto
qed



section \<open>Dictionaries and the rules on one dictionary\<close>

lemma dict_has_get: "dict_has d k \<longleftrightarrow> dict_get d k \<noteq> None"
  by (simp add: dict_has_def dict_get_def map_of_eq_None_iff)

lemma dict_get_pop [simp]: "dict_get (dict_pop k d) k' = (if k' = k then None else dict_get d k')"
  by (simp add: dict_get_def dict_pop_def delete_conv')

lemma dict_get_set [simp]: "dict_get (dict_set k v d) k' = (if k' = k then Some v else dict_get d k')"
  by (simp add: dict_get_def dict_set_def update_conv')

lemma dict_has_pop [simp]: "dict_has (dict_pop k d) k' \<longleftrightarrow> k' \<noteq> k \<and> dict_has d k'"
  by (simp add: dict_has_get)

lemma dict_has_set [simp]: "dict_has (dict_set k v d) k' \<longleftrightarrow> k' = k \<or> dict_has d k'"
  by (simp add: dict_has_get)

lemma dict_pop_absent: "\<not> dict_has d k \<Longrightarrow> dict_pop k d = d"
  by (simp add: dict_has_def dict_pop_def delete_id)

lemma dict_set_same: "dict_get d k = Some v \<Longrightarrow> dict_set k v d = d"
  by (simp add: dict_get_def dict_set_def update_triv)

lemma dict_get_in_set: "dict_get d k = Some v \<Longrightarrow> (k, v) \<in> set d"
  by (simp add: dict_get_def map_of_SomeD)

lemma prepare_head_no_rule:
  assumes "matches_no_rule E d"
  shows "prepare_head E f d = Inr d"
proof -
  from assms have absent: "\<not> dict_has d ''sameAs''" "\<not> dict_has d ''subPropertyOf''"
    "\<not> dict_has d ''description''" "\<not> dict_has d ''title''" "\<not> dict_has d ''useScheme''"
    "\<not> dict_has d ''$ref''"
    and nd: "\<not> is_date E d" and ni: "\<not> is_identifier E d"
    by (simp_all add: matches_no_rule_def)
  have d1: "discard_annotations d = d"
    by (simp add: discard_annotations_def dict_pop_absent absent)
  have g: "dict_get d ''title'' = None" "dict_get d ''useScheme'' = None" "dict_get d ''$ref'' = None"
    using absent by (simp_all add: dict_has_get)
  show ?thesis
    by (simp add: prepare_head_def Let_def d1 pop_default_def g dict_pop_absent absent
        unify_dates_def nd align_identifier_def ni align_concept_def kebab_ref_def)
qed

lemma prepare_field_no_rule:
  assumes "matches_no_rule E d"
  shows "prepare_field E f (JDict d) = Inr (JDict d)"
proof -
  from assms have "\<not> dict_has d ''anyOf''" "\<not> dict_has d ''allOf''"
    "dict_get d ''type'' \<noteq> Some (JStr ''array'')"
    by (simp_all add: matches_no_rule_def)
  then show ?thesis
    by (simp add: prepare_head_no_rule[OF assms] quantifier_order_def)
qed



lemma prepare_head_InrD:
  assumes "prepare_head E f d = Inr h"
  obtains u d4 where
    "pop_default ''useScheme'' (JStr []) (dict_pop ''title'' (discard_annotations d)) = JStr u"
    "align_identifier E f (pop_default ''title'' (JStr []) (discard_annotations d))
       (unify_dates E (dict_pop ''useScheme'' (dict_pop ''title'' (discard_annotations d)))) = Inr d4"
    "kebab_ref E (align_concept (removeprefix u ''https://mex.rki.de/item/'') d4) = Inr h"
  using assms
  by (auto simp: prepare_head_def Let_def split: json.splits sum.splits)

lemma dict_get_discard:
  "dict_get (discard_annotations d) k =
     (if k = ''sameAs'' \<or> k = ''subPropertyOf'' \<or> k = ''description'' then None else dict_get d k)"
  by (simp add: discard_annotations_def)

lemma dict_get_unify_dates:
  "k \<noteq> ''examples'' \<Longrightarrow> k \<noteq> ''pattern'' \<Longrightarrow> k \<noteq> ''format'' \<Longrightarrow>
     dict_get (unify_dates E d) k = dict_get d k"
  by (simp add: unify_dates_def)

lemma dict_get_align_identifier:
  "align_identifier E f t d = Inr d' \<Longrightarrow> k \<noteq> ''pattern'' \<Longrightarrow> k \<noteq> ''type'' \<Longrightarrow> k \<noteq> ''$ref'' \<Longrightarrow>
     dict_get d' k = dict_get d k"
  by (auto simp: align_identifier_def Let_def split: if_splits json.splits)

lemma dict_get_align_concept:
  "k \<noteq> ''$ref'' \<Longrightarrow> dict_get (align_concept v d) k = dict_get d k"
  by (simp add: align_concept_def)

lemma dict_get_kebab_ref:
  "kebab_ref E d = Inr d' \<Longrightarrow> k \<noteq> ''$ref'' \<Longrightarrow> dict_get d' k = dict_get d k"
  by (auto simp: kebab_ref_def split: option.splits json.splits)

lemma prepare_head_frame:
  assumes "prepare_head E f d = Inr h"
    and "k \<notin> set [''sameAs'', ''subPropertyOf'', ''description'', ''title'', ''useScheme'',
                   ''examples'', ''pattern'', ''format'', ''type'', ''$ref'']"
  shows "dict_get h k = dict_get d k"
proof -
  from assms(1) obtain u d4 where
    a: "align_identifier E f (pop_default ''title'' (JStr []) (discard_annotations d))
       (unify_dates E (dict_pop ''useScheme'' (dict_pop ''title'' (discard_annotations d)))) = Inr d4"
    and k: "kebab_ref E (align_concept (removeprefix u ''https://mex.rki.de/item/'') d4) = Inr h"
    by (rule prepare_head_InrD)
  from assms(2) have ne: "k \<noteq> ''sameAs''" "k \<noteq> ''subPropertyOf''" "k \<noteq> ''description''"
    "k \<noteq> ''title''" "k \<noteq> ''useScheme''" "k \<noteq> ''examples''" "k \<noteq> ''pattern''"
    "k \<noteq> ''format''" "k \<noteq> ''type''" "k \<noteq> ''$ref''"
    by simp_all
  have "dict_get h k = dict_get d4 k"
    using dict_get_kebab_ref[OF k ne(10)] dict_get_align_concept[OF ne(10)] by simp
  also have "\<dots> = dict_get (dict_pop ''useScheme'' (dict_pop ''title'' (discard_annotations d))) k"
    using dict_get_align_identifier[OF a ne(7) ne(9) ne(10)]
      dict_get_unify_dates[OF ne(6) ne(7) ne(8)] by simp
  also have "\<dots> = dict_get d k"
    using ne by (simp add: dict_get_discard)
  finally show ?thesis .
qed

lemma is_date_pops:
  "is_date E (dict_pop ''useScheme'' (dict_pop ''title'' (discard_annotations d))) = is_date E d"
  by (simp add: is_date_def dict_get_discard)

lemma is_identifier_unify_dates:
  "is_identifier E (unify_dates E (dict_pop ''useScheme'' (dict_pop ''title'' (discard_annotations d))))
     = identifier_fires E d"
proof (cases "is_date E d")
  case True
  then show ?thesis
    by (simp add: unify_dates_def is_date_pops is_identifier_def identifier_fires_def)
next
  case False
  then show ?thesis
    by (simp add: unify_dates_def is_date_pops is_identifier_def identifier_fires_def
        dict_get_discard)
qed

lemma dict_get_type_pops:
  "dict_get (unify_dates E (dict_pop ''useScheme'' (dict_pop ''title'' (discard_annotations d)))) ''type''
     = dict_get d ''type''"
  by (simp add: dict_get_unify_dates dict_get_discard)

lemma dict_get_ref_pops:
  "dict_get (unify_dates E (dict_pop ''useScheme'' (dict_pop ''title'' (discard_annotations d)))) ''$ref''
     = dict_get d ''$ref''"
  by (simp add: dict_get_unify_dates dict_get_discard)

lemma prepare_head_type:
  assumes "prepare_head E f d = Inr h"
  shows "dict_get h ''type'' = (if identifier_fires E d then None else dict_get d ''type'')"
proof -
  let ?d3 = "unify_dates E (dict_pop ''useScheme'' (dict_pop ''title'' (discard_annotations d)))"
  from assms obtain u d4 where
    a: "align_identifier E f (pop_default ''title'' (JStr []) (discard_annotations d)) ?d3 = Inr d4"
    and k: "kebab_ref E (align_concept (removeprefix u ''https://mex.rki.de/item/'') d4) = Inr h"
    by (rule prepare_head_InrD)
  have "dict_get h ''type'' = dict_get d4 ''type''"
    using dict_get_kebab_ref[OF k, of "''type''"] dict_get_align_concept[of "''type''"] by simp
  also have "\<dots> = (if identifier_fires E d then None else dict_get d ''type'')"
    using a is_identifier_unify_dates[of E d] dict_get_type_pops[of E d]
    by (auto simp: align_identifier_def Let_def split: if_splits json.splits)
  finally show ?thesis .
qed

lemma kebab_ref_returns:
  "str_or_absent (dict_get d ''$ref'') \<Longrightarrow> \<exists>h. kebab_ref E d = Inr h"
  by (cases "dict_get d ''$ref''" rule: str_or_absent.cases) (simp_all add: kebab_ref_def)

lemma align_concept_ref:
  "str_or_absent (dict_get d ''$ref'') \<Longrightarrow> str_or_absent (dict_get (align_concept v d) ''$ref'')"
  by (simp add: align_concept_def)

lemma prepare_head_returns:
  assumes us: "str_or_absent (dict_get d ''useScheme'')"
    and idf: "identifier_fires E d \<Longrightarrow>
           dict_has d ''type'' \<and> (universal_field f \<or> str_or_absent (dict_get d ''title''))"
    and ref: "\<not> identifier_fires E d \<Longrightarrow> str_or_absent (dict_get d ''$ref'')"
  shows "\<exists>h. prepare_head E f d = Inr h"
proof -
  let ?d1 = "discard_annotations d"
  let ?t = "pop_default ''title'' (JStr []) ?d1"
  let ?d3 = "unify_dates E (dict_pop ''useScheme'' (dict_pop ''title'' ?d1))"
  obtain u where u: "pop_default ''useScheme'' (JStr []) (dict_pop ''title'' ?d1) = JStr u"
    using us
    by (cases "dict_get d ''useScheme''" rule: str_or_absent.cases)
      (auto simp: pop_default_def dict_get_discard)
  have "\<exists>d4. align_identifier E f ?t ?d3 = Inr d4 \<and> str_or_absent (dict_get d4 ''$ref'')"
  proof (cases "identifier_fires E d")
    case True
    with idf have ty: "dict_has d ''type''"
      and t: "universal_field f \<or> str_or_absent (dict_get d ''title'')" by simp_all
    from ty have ty': "dict_has (dict_pop ''pattern'' ?d3) ''type''"
      by (simp add: dict_has_get dict_get_type_pops)
    from t have "universal_field f \<or> (\<exists>t. ?t = JStr t)"
      by (cases "dict_get d ''title''" rule: str_or_absent.cases)
        (auto simp: pop_default_def dict_get_discard)
    with True ty' show ?thesis
      using is_identifier_unify_dates[of E d]
      by (auto simp: align_identifier_def Let_def)
  next
    case False
    with ref show ?thesis
      using is_identifier_unify_dates[of E d] dict_get_ref_pops[of E d]
      by (simp add: align_identifier_def)
  qed
  then obtain d4 where a: "align_identifier E f ?t ?d3 = Inr d4"
    and r: "str_or_absent (dict_get d4 ''$ref'')" by blast
  from kebab_ref_returns[OF align_concept_ref[OF r]] obtain h where
    "kebab_ref E (align_concept (removeprefix u ''https://mex.rki.de/item/'') d4) = Inr h"
    by blast
  with u a show ?thesis
    by (simp add: prepare_head_def Let_def)
qed


lemma prepare_field_container: "prepare_field E f x = Inr y \<Longrightarrow> is_container y"
  by (cases x) (auto split: sum.splits)

lemma deduplicate_dicts_returns:
  "is_container v \<Longrightarrow> \<exists>d'. deduplicate_dicts (dict_set q v d) q = Inr d'"
  by (cases v) (simp_all add: deduplicate_dicts_def)

lemma filter_quantifiers_cases:
  "filter P (quantifier_order E) =
     (if P ''anyOf'' \<and> P ''allOf'' then quantifier_order E
      else if P ''anyOf'' then [''anyOf'']
      else if P ''allOf'' then [''allOf''] else [])"
  by (simp add: quantifier_order_def)

lemma well_formed_dictD:
  assumes "well_formed E f (JDict d)"
  shows "str_or_absent (dict_get d ''useScheme'')"
    and "identifier_fires E d \<Longrightarrow>
           dict_has d ''type'' \<and> (universal_field f \<or> str_or_absent (dict_get d ''title''))"
    and "\<not> identifier_fires E d \<Longrightarrow> str_or_absent (dict_get d ''$ref'')"
    and "\<not> identifier_fires E d \<and> dict_get d ''type'' = Some (JStr ''array'') \<Longrightarrow>
           dict_has d ''items''"
    and "\<not> (dict_has d ''anyOf'' \<and> dict_has d ''allOf'')"
    and "dict_get d ''items'' = Some v \<Longrightarrow> \<not> identifier_fires E d
           \<and> dict_get d ''type'' = Some (JStr ''array'') \<Longrightarrow> well_formed E f v"
    and "dict_get d k = Some v \<Longrightarrow> k = ''anyOf'' \<or> k = ''allOf'' \<Longrightarrow> well_formed E f v"
proof -
  from assms show "str_or_absent (dict_get d ''useScheme'')" by simp
  from assms show "identifier_fires E d \<Longrightarrow>
           dict_has d ''type'' \<and> (universal_field f \<or> str_or_absent (dict_get d ''title''))"
    by simp
  from assms show "\<not> identifier_fires E d \<Longrightarrow> str_or_absent (dict_get d ''$ref'')" by simp
  from assms show "\<not> identifier_fires E d \<and> dict_get d ''type'' = Some (JStr ''array'') \<Longrightarrow>
           dict_has d ''items''" by simp
  from assms show "\<not> (dict_has d ''anyOf'' \<and> dict_has d ''allOf'')" by simp
  from assms have all: "\<forall>p \<in> set d.
            (fst p = ''items'' \<and> \<not> identifier_fires E d
               \<and> dict_get d ''type'' = Some (JStr ''array'') \<longrightarrow> well_formed E f (snd p))
            \<and> (fst p = ''anyOf'' \<or> fst p = ''allOf'' \<longrightarrow> well_formed E f (snd p))"
    by simp
  show "well_formed E f v" if "dict_get d ''items'' = Some v" "\<not> identifier_fires E d
           \<and> dict_get d ''type'' = Some (JStr ''array'')"
    using all dict_get_in_set[OF that(1)] that(2) by fastforce
  show "well_formed E f v" if "dict_get d k = Some v" "k = ''anyOf'' \<or> k = ''allOf''"
    using all dict_get_in_set[OF that(1)] that(2) by fastforce
qed

lemma well_formed_returns_aux:
  "well_formed E f x \<longrightarrow> (\<exists>y. prepare_field E f x = Inr y)"
  "(\<forall>x \<in> set xs. well_formed E f x) \<longrightarrow> (\<exists>ys. prepare_items E f xs = Inr ys)"
  "length qs \<le> 1 \<and> (\<forall>q \<in> set qs. \<exists>v. dict_get a q = Some v \<and> well_formed E f v)
     \<longrightarrow> (\<exists>r. prepare_quantifiers E f qs a = Inr r)"
proof (induct E f x and E f xs and E f qs a
    rule: prepare_field_prepare_items_prepare_quantifiers.induct)
  case (1 E field obj)
  then show ?case by auto
next
  case (2 E field obj0)
  show ?case
  proof
    assume wf: "well_formed E field (JDict obj0)"
    note wfD = well_formed_dictD[OF wf]
    have "\<exists>h. prepare_head E field obj0 = Inr h"
      using wfD(1,2,3) by (intro prepare_head_returns) blast+
    then obtain obj where h: "prepare_head E field obj0 = Inr obj" ..
    have frame: "dict_get obj k = dict_get obj0 k" if "k = ''items'' \<or> k = ''anyOf'' \<or> k = ''allOf''" for k
      using that by (intro prepare_head_frame[OF h]) auto
    have "\<exists>obj'. (if dict_get obj ''type'' = Some (JStr ''array'')
                 then (case dict_get obj ''items'' of
                         None \<Rightarrow> Inl KeyError
                       | Some items \<Rightarrow>
                           (case prepare_field E field items of
                              Inl e \<Rightarrow> Inl e
                            | Inr items' \<Rightarrow> Inr (dict_set ''items'' items' obj)))
                 else Inr obj) = Inr obj'
              \<and> dict_get obj' ''anyOf'' = dict_get obj0 ''anyOf''
              \<and> dict_get obj' ''allOf'' = dict_get obj0 ''allOf''"
    proof (cases "dict_get obj ''type'' = Some (JStr ''array'')")
      case True
      then have nf: "\<not> identifier_fires E obj0" and ty: "dict_get obj0 ''type'' = Some (JStr ''array'')"
        using prepare_head_type[OF h] by (auto split: if_splits)
      with wfD(4) have "dict_has obj0 ''items''" by blast
      then obtain items where i0: "dict_get obj0 ''items'' = Some items"
        by (auto simp: dict_has_get)
      have wfi: "well_formed E field items"
        using wfD(6)[OF i0] nf ty by blast
      have i: "dict_get obj ''items'' = Some items" using i0 frame by simp
      from "2.hyps"(1)[OF h True i] wfi obtain items' where
        "prepare_field E field items = Inr items'" by blast
      with True i show ?thesis by (simp add: frame)
    next
      case False
      then show ?thesis by (simp add: frame)
    qed
    then obtain obj' where a: "(if dict_get obj ''type'' = Some (JStr ''array'')
                 then (case dict_get obj ''items'' of
                         None \<Rightarrow> Inl KeyError
                       | Some items \<Rightarrow>
                           (case prepare_field E field items of
                              Inl e \<Rightarrow> Inl e
                            | Inr items' \<Rightarrow> Inr (dict_set ''items'' items' obj)))
                 else Inr obj) = Inr obj'"
      and q: "dict_get obj' ''anyOf'' = dict_get obj0 ''anyOf''"
             "dict_get obj' ''allOf'' = dict_get obj0 ''allOf''"
      by blast
    let ?qs = "filter (dict_has obj') (quantifier_order E)"
    from wfD(5) have nb: "\<not> (dict_has obj' ''anyOf'' \<and> dict_has obj' ''allOf'')"
      by (simp add: dict_has_get q)
    have wfq: "\<exists>v. dict_get obj' k = Some v \<and> well_formed E field v"
      if "k = ''anyOf'' \<or> k = ''allOf''" "dict_has obj' k" for k
    proof -
      have "dict_get obj' k \<noteq> None"
        using that(2) by (simp add: dict_has_get)
      then obtain v where v': "dict_get obj' k = Some v" by blast
      then have v: "dict_get obj0 k = Some v"
        using that(1) q by auto
      from wfD(7)[OF v that(1)] v' show ?thesis by blast
    qed
    have "length ?qs \<le> 1 \<and> (\<forall>k \<in> set ?qs. \<exists>v. dict_get obj' k = Some v \<and> well_formed E field v)"
      using nb wfq by (auto simp: filter_quantifiers_cases)
    with "2.hyps"(2)[OF h a] obtain res where
      "prepare_quantifiers E field ?qs obj' = Inr res" by blast
    with h a show "\<exists>y. prepare_field E field (JDict obj0) = Inr y"
      by simp
  qed
next
  case (8 E field item rest)
  then show ?case by (auto split: sum.splits)
next
  case (10 E field quantifier rest obj)
  show ?case
  proof (intro impI, elim conjE)
    assume len: "length (quantifier # rest) \<le> 1"
      and all: "\<forall>q \<in> set (quantifier # rest). \<exists>v. dict_get obj q = Some v \<and> well_formed E field v"
    from len have rest: "rest = []" by simp
    from all obtain choices where g: "dict_get obj quantifier = Some choices"
      and wfc: "well_formed E field choices" by auto
    from "10.hyps"(1)[OF g] wfc obtain choices' where
      p: "prepare_field E field choices = Inr choices'" by blast
    from deduplicate_dicts_returns[OF prepare_field_container[OF p]] obtain obj' where
      "deduplicate_dicts (dict_set quantifier choices' obj) quantifier = Inr obj'" by blast
    with g p rest show "\<exists>r. prepare_quantifiers E field (quantifier # rest) obj = Inr r"
      by simp
  qed
qed simp_all

lemma well_formed_returns:
  "well_formed E f x \<Longrightarrow> \<exists>y. prepare_field E f x = Inr y"
  using well_formed_returns_aux(1) by blast


section \<open>The normalizer on one dictionary\<close>

lemma array_step_InrD:
  assumes "(if dict_get h ''type'' = Some (JStr ''array'')
            then (case dict_get h ''items'' of
                    None \<Rightarrow> Inl KeyError
                  | Some items \<Rightarrow>
                      (case prepare_field E f items of
                         Inl e \<Rightarrow> Inl e
                       | Inr items' \<Rightarrow> Inr (dict_set ''items'' items' h)))
            else Inr h) = Inr a"
  shows "(dict_get h ''type'' \<noteq> Some (JStr ''array'') \<and> a = h)
         \<or> (dict_get h ''type'' = Some (JStr ''array'')
            \<and> (\<exists>items items'. dict_get h ''items'' = Some items
                  \<and> prepare_field E f items = Inr items'
                  \<and> a = dict_set ''items'' items' h))"
proof (cases "dict_get h ''type'' = Some (JStr ''array'')")
  case True
  with assms show ?thesis
    by (cases "dict_get h ''items''") (auto split: sum.splits)
next
  case False
  with assms show ?thesis by simp
qed

lemma array_step_frame:
  assumes "(dict_get h ''type'' \<noteq> Some (JStr ''array'') \<and> a = h)
         \<or> (dict_get h ''type'' = Some (JStr ''array'')
            \<and> (\<exists>items items'. dict_get h ''items'' = Some items
                  \<and> prepare_field E f items = Inr items'
                  \<and> a = dict_set ''items'' items' h))"
    and "k \<noteq> ''items''"
  shows "dict_get a k = dict_get h k"
proof -
  from assms(1) consider "a = h" | items' where "a = dict_set ''items'' items' h"
    by blast
  then show ?thesis
    using assms(2) by cases simp_all
qed

lemma prepare_field_dictE:
  assumes "prepare_field E f (JDict d) = Inr y"
  obtains h a r where "prepare_head E f d = Inr h"
    and "(dict_get h ''type'' \<noteq> Some (JStr ''array'') \<and> a = h)
         \<or> (dict_get h ''type'' = Some (JStr ''array'')
            \<and> (\<exists>items items'. dict_get h ''items'' = Some items
                  \<and> prepare_field E f items = Inr items'
                  \<and> a = dict_set ''items'' items' h))"
    and "prepare_quantifiers E f (filter (dict_has a) (quantifier_order E)) a = Inr r"
    and "y = JDict r"
proof -
  from assms obtain h where h: "prepare_head E f d = Inr h"
    by (cases "prepare_head E f d") simp_all
  let ?A = "(if dict_get h ''type'' = Some (JStr ''array'')
            then (case dict_get h ''items'' of
                    None \<Rightarrow> Inl KeyError
                  | Some items \<Rightarrow>
                      (case prepare_field E f items of
                         Inl e \<Rightarrow> Inl e
                       | Inr items' \<Rightarrow> Inr (dict_set ''items'' items' h)))
            else Inr h)"
  from assms h obtain a where a: "?A = Inr a"
    by (cases ?A) simp_all
  from assms h a obtain r where
    r: "prepare_quantifiers E f (filter (dict_has a) (quantifier_order E)) a = Inr r"
    by (cases "prepare_quantifiers E f (filter (dict_has a) (quantifier_order E)) a") simp_all
  from assms h a r have y: "y = JDict r" by simp
  from that[OF h array_step_InrD[OF a] r y] show ?thesis .
qed

lemma prepare_field_no_union:
  assumes "prepare_field E f (JDict d) = Inr y"
    and "\<not> dict_has d ''anyOf''" "\<not> dict_has d ''allOf''"
  obtains h a where "prepare_head E f d = Inr h" and "y = JDict a"
    and "(dict_get h ''type'' \<noteq> Some (JStr ''array'') \<and> a = h)
         \<or> (dict_get h ''type'' = Some (JStr ''array'')
            \<and> (\<exists>items items'. dict_get h ''items'' = Some items
                  \<and> prepare_field E f items = Inr items'
                  \<and> a = dict_set ''items'' items' h))"
proof -
  from assms(1) obtain h a r where h: "prepare_head E f d = Inr h"
    and a: "(dict_get h ''type'' \<noteq> Some (JStr ''array'') \<and> a = h)
         \<or> (dict_get h ''type'' = Some (JStr ''array'')
            \<and> (\<exists>items items'. dict_get h ''items'' = Some items
                  \<and> prepare_field E f items = Inr items'
                  \<and> a = dict_set ''items'' items' h))"
    and q: "prepare_quantifiers E f (filter (dict_has a) (quantifier_order E)) a = Inr r"
    and y: "y = JDict r"
    by (rule prepare_field_dictE)
  have "dict_get h k = dict_get d k" if "k = ''anyOf'' \<or> k = ''allOf''" for k
    using that by (intro prepare_head_frame[OF h]) auto
  with array_step_frame[OF a] assms(2,3) have "\<not> dict_has a ''anyOf''" "\<not> dict_has a ''allOf''"
    by (simp_all add: dict_has_get)
  then have "filter (dict_has a) (quantifier_order E) = []"
    by (simp add: filter_quantifiers_cases)
  with q have "r = a" by simp
  with h a y that show ?thesis by blast
qed

lemma prepare_head_date:
  assumes "prepare_head E f d = Inr h" and "is_date E d"
  shows "dict_get h ''format'' = Some (JStr ''date-time'')"
    and "dict_get h ''pattern'' = None" and "dict_get h ''examples'' = None"
proof -
  let ?d2 = "dict_pop ''useScheme'' (dict_pop ''title'' (discard_annotations d))"
  from assms(1) obtain u d4 where
    a: "align_identifier E f (pop_default ''title'' (JStr []) (discard_annotations d))
          (unify_dates E ?d2) = Inr d4"
    and k: "kebab_ref E (align_concept (removeprefix u ''https://mex.rki.de/item/'') d4) = Inr h"
    by (rule prepare_head_InrD)
  have u: "unify_dates E ?d2
      = dict_set ''format'' (JStr ''date-time'') (dict_pop ''pattern'' (dict_pop ''examples'' ?d2))"
    using assms(2) by (simp add: unify_dates_def is_date_pops)
  have "\<not> is_identifier E (unify_dates E ?d2)"
    by (simp add: u is_identifier_def)
  with a have d4: "d4 = unify_dates E ?d2"
    by (simp add: align_identifier_def)
  have eq: "dict_get h k = dict_get (unify_dates E ?d2) k" if "k \<noteq> ''$ref''" for k
    using dict_get_kebab_ref[OF k that] dict_get_align_concept[OF that] d4 by simp
  show "dict_get h ''format'' = Some (JStr ''date-time'')"
    by (simp add: eq u)
  show "dict_get h ''pattern'' = None"
    by (simp add: eq u)
  show "dict_get h ''examples'' = None"
    by (simp add: eq u)
qed

lemma dict_set_set_same: "dict_set k v' (dict_set k v d) = dict_set k v' d"
  by (simp add: dict_set_def)

lemma entity_ref_concept:
  "(''/schema/entities/'' @ x @ ''#/identifier'' = ''/schema/entities/concept#/identifier'')
     \<longleftrightarrow> x = ''concept''"
proof -
  have "''/schema/entities/concept#/identifier'' = ''/schema/entities/'' @ ''concept'' @ ''#/identifier''"
    by simp
  then show ?thesis
    by (simp only: same_append_eq append_same_eq)
qed

lemma pop_default_str:
  "str_or_absent (dict_get d k) \<Longrightarrow> pop_default k (JStr []) d = JStr (str_value (dict_get d k))"
  by (cases "dict_get d k" rule: str_or_absent.cases) (simp_all add: pop_default_def str_value_def)

lemma prepare_head_identifier:
  assumes fires: "identifier_fires E d"
    and ty: "dict_has d ''type''"
    and us: "str_or_absent (dict_get d ''useScheme'')"
    and ti: "universal_field f \<or> str_or_absent (dict_get d ''title'')"
  shows "prepare_head E f d = Inr
    (dict_set ''$ref''
       (JStr (sub_only_text (dromedary_to_kebab E)
          (if universal_field f then ''/schema/fields/identifier''
           else if entity_name (str_value (dict_get d ''title'')) = ''concept''
           then ''/schema/fields/''
                  @ removeprefix (str_value (dict_get d ''useScheme'')) ''https://mex.rki.de/item/''
           else ''/schema/entities/'' @ entity_name (str_value (dict_get d ''title''))
                  @ ''#/identifier'')))
       (dict_pop ''type'' (dict_pop ''pattern'' (dict_pop ''useScheme'' (dict_pop ''title''
          (discard_annotations d))))))"
proof -
  let ?d1 = "discard_annotations d"
  let ?d2 = "dict_pop ''useScheme'' (dict_pop ''title'' ?d1)"
  let ?base = "dict_pop ''type'' (dict_pop ''pattern'' ?d2)"
  let ?t = "str_value (dict_get d ''title'')"
  let ?u = "str_value (dict_get d ''useScheme'')"
  let ?voc = "removeprefix ?u ''https://mex.rki.de/item/''"
  from fires have nd: "\<not> is_date E d" by (simp add: identifier_fires_def)
  have u: "pop_default ''useScheme'' (JStr []) (dict_pop ''title'' ?d1) = JStr ?u"
    using pop_default_str[of "dict_pop ''title'' ?d1" "''useScheme''"] us
    by (simp add: dict_get_discard)
  have ud: "unify_dates E ?d2 = ?d2"
    using nd by (simp add: unify_dates_def is_date_pops)
  have isid: "is_identifier E ?d2"
    using is_identifier_unify_dates[of E d] fires ud by simp
  have hasty: "dict_has (dict_pop ''pattern'' ?d2) ''type''"
    using ty by (simp add: dict_has_get dict_get_discard)
  show ?thesis
  proof (cases "universal_field f")
    case True
    then have "align_identifier E f (pop_default ''title'' (JStr []) ?d1) ?d2
        = Inr (dict_set ''$ref'' (JStr ''/schema/fields/identifier'') ?base)"
      using isid hasty by (simp add: align_identifier_def Let_def)
    moreover have "align_concept ?voc (dict_set ''$ref'' (JStr ''/schema/fields/identifier'') ?base)
        = dict_set ''$ref'' (JStr ''/schema/fields/identifier'') ?base"
      by (simp add: align_concept_def)
    moreover have "kebab_ref E (dict_set ''$ref'' (JStr ''/schema/fields/identifier'') ?base)
        = Inr (dict_set ''$ref''
            (JStr (sub_only_text (dromedary_to_kebab E) ''/schema/fields/identifier'')) ?base)"
      by (simp add: kebab_ref_def dict_set_set_same)
    ultimately show ?thesis
      using True u ud by (simp add: prepare_head_def Let_def)
  next
    case False
    with ti have "str_or_absent (dict_get d ''title'')" by simp
    then have t: "pop_default ''title'' (JStr []) ?d1 = JStr ?t"
      using pop_default_str[of ?d1 "''title''"] by (simp add: dict_get_discard)
    let ?ref0 = "''/schema/entities/'' @ entity_name ?t @ ''#/identifier''"
    let ?ref1 = "if entity_name ?t = ''concept'' then ''/schema/fields/'' @ ?voc else ?ref0"
    have "align_identifier E f (pop_default ''title'' (JStr []) ?d1) ?d2
        = Inr (dict_set ''$ref'' (JStr ?ref0) ?base)"
      using isid hasty False by (simp add: align_identifier_def Let_def t)
    moreover have "align_concept ?voc (dict_set ''$ref'' (JStr ?ref0) ?base)
        = dict_set ''$ref'' (JStr ?ref1) ?base"
      unfolding align_concept_def dict_get_set_same
      by (simp only: option.inject json.inject entity_ref_concept dict_set_set_same if_distrib
          split: if_splits) simp
    moreover have "kebab_ref E (dict_set ''$ref'' (JStr ?ref1) ?base)
        = Inr (dict_set ''$ref'' (JStr (sub_only_text (dromedary_to_kebab E) ?ref1)) ?base)"
      by (simp only: kebab_ref_def dict_get_set_same option.case json.case dict_set_set_same)
    ultimately show ?thesis
      using False u ud by (simp add: prepare_head_def Let_def)
  qed
qed


lemma prepare_field_flat:
  assumes h: "prepare_head E f d = Inr h"
    and ty: "dict_get h ''type'' \<noteq> Some (JStr ''array'')"
    and nu: "\<not> dict_has d ''anyOf''" "\<not> dict_has d ''allOf''"
  shows "prepare_field E f (JDict d) = Inr (JDict h)"
proof -
  have "dict_get h k = dict_get d k" if "k = ''anyOf'' \<or> k = ''allOf''" for k
    using that by (intro prepare_head_frame[OF h]) auto
  with nu have "\<not> dict_has h ''anyOf''" "\<not> dict_has h ''allOf''"
    by (simp_all add: dict_has_get)
  then have "filter (dict_has h) (quantifier_order E) = []"
    by (simp add: filter_quantifiers_cases)
  with h ty show ?thesis by simp
qed

lemma sub_only_text_identifier_ref:
  "sub_only_text k ''/schema/fields/identifier''
     = ''/'' @ k ''schema'' @ ''/'' @ k ''fields'' @ ''/'' @ k ''identifier''"
  by (simp add: sub_only_text_def is_text_char_def)

section \<open>Operations on a key that the rules do not touch\<close>

lemma dict_pop_pop: "dict_pop q (dict_pop k d) = dict_pop k (dict_pop q d)"
  by (simp add: dict_pop_def delete_twist)

lemma dict_pop_set: "k \<noteq> q \<Longrightarrow> dict_pop q (dict_set k v d) = dict_set k v (dict_pop q d)"
  by (simp add: dict_pop_def dict_set_def delete_update)

lemma dict_pop_set_same: "dict_pop k (dict_set k v d) = dict_pop k d"
  by (simp add: dict_pop_def dict_set_def delete_update_same)

lemma dict_set_swap:
  "dict_has d q \<Longrightarrow> k \<noteq> q \<Longrightarrow> dict_set q v (dict_set k w d) = dict_set k w (dict_set q v d)"
  by (induction d) (auto simp: dict_set_def dict_has_def)

lemma frame_op_pop: "frame_op q (dict_pop q)"
  by (simp add: frame_op_def dict_pop_pop dict_pop_set)

lemma dict_set_pop: "k \<noteq> q \<Longrightarrow> dict_set q v (dict_pop k d) = dict_pop k (dict_set q v d)"
  by (simp add: dict_pop_def dict_set_def delete_update)

lemma frame_op_set: "frame_op q (dict_set q v)"
  by (simp add: frame_op_def dict_set_swap dict_set_pop)

lemma frame_opD:
  assumes "frame_op q T" "dict_has d q" "k \<noteq> q"
  shows "dict_get (T d) k = dict_get d k"
    and "T (dict_pop k d) = dict_pop k (T d)"
    and "T (dict_set k v d) = dict_set k v (T d)"
  using assms by (simp_all add: frame_op_def)

lemma discard_annotations_frame_op:
  assumes T: "frame_op q T" and q: "dict_has d q"
    and ne: "q \<noteq> ''sameAs''" "q \<noteq> ''subPropertyOf''" "q \<noteq> ''description''"
  shows "discard_annotations (T d) = T (discard_annotations d)"
proof -
  have 1: "T (dict_pop ''sameAs'' d) = dict_pop ''sameAs'' (T d)"
    using frame_opD(2)[OF T q] ne by simp
  have q1: "dict_has (dict_pop ''sameAs'' d) q" using q ne by simp
  have 2: "T (dict_pop ''subPropertyOf'' (dict_pop ''sameAs'' d))
      = dict_pop ''subPropertyOf'' (T (dict_pop ''sameAs'' d))"
    using frame_opD(2)[OF T q1] ne by simp
  have q2: "dict_has (dict_pop ''subPropertyOf'' (dict_pop ''sameAs'' d)) q" using q1 ne by simp
  have 3: "T (dict_pop ''description'' (dict_pop ''subPropertyOf'' (dict_pop ''sameAs'' d)))
      = dict_pop ''description'' (T (dict_pop ''subPropertyOf'' (dict_pop ''sameAs'' d)))"
    using frame_opD(2)[OF T q2] ne by simp
  show ?thesis
    by (simp add: discard_annotations_def 1 2 3)
qed

lemma is_date_frame_op:
  assumes T: "frame_op q T" and q: "dict_has d q" and ne: "q \<noteq> ''format''" "q \<noteq> ''pattern''"
  shows "is_date E (T d) = is_date E d"
  using frame_opD(1)[OF T q, of "''format''"] frame_opD(1)[OF T q, of "''pattern''"] ne
  by (simp add: is_date_def)

lemma unify_dates_frame_op:
  assumes T: "frame_op q T" and q: "dict_has d q"
    and ne: "q \<noteq> ''format''" "q \<noteq> ''pattern''" "q \<noteq> ''examples''"
  shows "unify_dates E (T d) = T (unify_dates E d)"
proof (cases "is_date E d")
  case True
  have q1: "dict_has (dict_pop ''examples'' d) q" using q ne by simp
  have q2: "dict_has (dict_pop ''pattern'' (dict_pop ''examples'' d)) q" using q1 ne by simp
  have "T (dict_set ''format'' (JStr ''date-time'') (dict_pop ''pattern'' (dict_pop ''examples'' d)))
      = dict_set ''format'' (JStr ''date-time'') (T (dict_pop ''pattern'' (dict_pop ''examples'' d)))"
    using frame_opD(3)[OF T q2] ne by simp
  also have "T (dict_pop ''pattern'' (dict_pop ''examples'' d))
      = dict_pop ''pattern'' (T (dict_pop ''examples'' d))"
    using frame_opD(2)[OF T q1] ne by simp
  also have "T (dict_pop ''examples'' d) = dict_pop ''examples'' (T d)"
    using frame_opD(2)[OF T q] ne by simp
  finally show ?thesis
    using True is_date_frame_op[OF T q ne(1,2), of E] by (simp add: unify_dates_def)
next
  case False
  then show ?thesis
    using is_date_frame_op[OF T q ne(1,2), of E] by (simp add: unify_dates_def)
qed

lemma align_identifier_frame_op:
  assumes T: "frame_op q T" and q: "dict_has d q"
    and ne: "q \<noteq> ''pattern''" "q \<noteq> ''type''" "q \<noteq> ''$ref''"
  shows "align_identifier E f t (T d) = map_sum id T (align_identifier E f t d)"
proof (cases "is_identifier E d")
  case True
  have idT: "is_identifier E (T d)"
    using True frame_opD(1)[OF T q, of "''pattern''"] ne by (simp add: is_identifier_def)
  have q1: "dict_has (dict_pop ''pattern'' d) q" using q ne by simp
  have q2: "dict_has (dict_pop ''type'' (dict_pop ''pattern'' d)) q" using q1 ne by simp
  have p1: "dict_pop ''pattern'' (T d) = T (dict_pop ''pattern'' d)"
    using frame_opD(2)[OF T q] ne by simp
  have p2: "dict_pop ''type'' (T (dict_pop ''pattern'' d)) = T (dict_pop ''type'' (dict_pop ''pattern'' d))"
    using frame_opD(2)[OF T q1] ne by simp
  have ty: "dict_has (T (dict_pop ''pattern'' d)) ''type'' = dict_has (dict_pop ''pattern'' d) ''type''"
    using frame_opD(1)[OF T q1, of "''type''"] ne by (simp add: dict_has_get)
  have s: "dict_set ''$ref'' v (T (dict_pop ''type'' (dict_pop ''pattern'' d)))
      = T (dict_set ''$ref'' v (dict_pop ''type'' (dict_pop ''pattern'' d)))" for v
    using frame_opD(3)[OF T q2] ne by simp
  show ?thesis
    unfolding align_identifier_def Let_def
    by (simp only: True idT p1 p2 ty s if_True split: if_splits json.splits) simp
next
  case False
  then have "\<not> is_identifier E (T d)"
    using frame_opD(1)[OF T q, of "''pattern''"] ne by (simp add: is_identifier_def)
  with False show ?thesis by (simp add: align_identifier_def)
qed

lemma align_concept_frame_op:
  assumes T: "frame_op q T" and q: "dict_has d q" and ne: "q \<noteq> ''$ref''"
  shows "align_concept v (T d) = T (align_concept v d)"
  using frame_opD(1)[OF T q, of "''$ref''"] frame_opD(3)[OF T q, of "''$ref''"] ne
  by (simp add: align_concept_def)

lemma kebab_ref_frame_op:
  assumes T: "frame_op q T" and q: "dict_has d q" and ne: "q \<noteq> ''$ref''"
  shows "kebab_ref E (T d) = map_sum id T (kebab_ref E d)"
  using frame_opD(1)[OF T q, of "''$ref''"] frame_opD(3)[OF T q, of "''$ref''"] ne
  by (simp add: kebab_ref_def split: option.splits json.splits)


lemma pop_default_frame_op:
  assumes "frame_op q T" "dict_has d q" "k \<noteq> q"
  shows "pop_default k dflt (T d) = pop_default k dflt d"
  using frame_opD(1)[OF assms] by (simp add: pop_default_def)

lemma dict_has_discard: "dict_has (discard_annotations d) q \<longleftrightarrow>
    q \<noteq> ''sameAs'' \<and> q \<noteq> ''subPropertyOf'' \<and> q \<noteq> ''description'' \<and> dict_has d q"
  by (auto simp: dict_has_get dict_get_discard)

lemma head_keyD:
  assumes "\<not> head_key q"
  shows "q \<noteq> ''sameAs''" "q \<noteq> ''subPropertyOf''" "q \<noteq> ''description''"
    "q \<noteq> ''title''" "q \<noteq> ''useScheme''" "q \<noteq> ''examples''" "q \<noteq> ''pattern''"
    "q \<noteq> ''format''" "q \<noteq> ''type''" "q \<noteq> ''$ref''"
  using assms by (simp_all add: head_key_def)

lemma prepare_head_frame_op:
  assumes T: "frame_op q T" and q: "dict_has d q" and nk: "\<not> head_key q"
  shows "prepare_head E f (T d) = map_sum id T (prepare_head E f d)"
proof -
  note ne = head_keyD[OF nk]
  let ?d1 = "discard_annotations d"
  let ?d2 = "dict_pop ''title'' ?d1"
  let ?d3 = "dict_pop ''useScheme'' ?d2"
  let ?t = "pop_default ''title'' (JStr []) ?d1"
  let ?us = "pop_default ''useScheme'' (JStr []) ?d2"
  have q1: "dict_has ?d1 q" using q ne by (simp add: dict_has_discard)
  have q2: "dict_has ?d2 q" using q1 ne by simp
  have q3: "dict_has ?d3 q" using q2 ne by simp
  have q3': "dict_has (unify_dates E ?d3) q"
    using q3 dict_get_unify_dates[of q E ?d3] ne by (simp add: dict_has_get)
  have e1: "discard_annotations (T d) = T ?d1"
    by (rule discard_annotations_frame_op[OF T q ne(1,2,3)])
  have et: "pop_default ''title'' (JStr []) (T ?d1) = ?t"
    using pop_default_frame_op[OF T q1] ne by simp
  have e2: "dict_pop ''title'' (T ?d1) = T ?d2"
    using frame_opD(2)[OF T q1] ne by simp
  have eu: "pop_default ''useScheme'' (JStr []) (T ?d2) = ?us"
    using pop_default_frame_op[OF T q2] ne by simp
  have e3: "dict_pop ''useScheme'' (T ?d2) = T ?d3"
    using frame_opD(2)[OF T q2] ne by simp
  have e4: "unify_dates E (T ?d3) = T (unify_dates E ?d3)"
    by (rule unify_dates_frame_op[OF T q3 ne(8,7,6)])
  have e5: "align_identifier E f ?t (T (unify_dates E ?d3))
      = map_sum id T (align_identifier E f ?t (unify_dates E ?d3))"
    by (rule align_identifier_frame_op[OF T q3' ne(7,9,10)])
  have unfold: "prepare_head E f (T d) =
      (case ?us of
         JStr u \<Rightarrow>
           (case map_sum id T (align_identifier E f ?t (unify_dates E ?d3)) of
              Inl e \<Rightarrow> Inl e
            | Inr obj4 \<Rightarrow>
                kebab_ref E (align_concept (removeprefix u ''https://mex.rki.de/item/'') obj4))
       | _ \<Rightarrow> Inl AttributeError)"
    by (simp only: prepare_head_def Let_def e1 et e2 eu e3 e4 e5)
  show ?thesis
  proof (cases "\<exists>u. ?us = JStr u")
    case False
    then have "prepare_head E f (T d) = Inl AttributeError"
      unfolding unfold by (cases ?us) simp_all
    moreover from False have "prepare_head E f d = Inl AttributeError"
      unfolding prepare_head_def Let_def by (cases ?us) simp_all
    ultimately show ?thesis by simp
  next
    case True
    then obtain u where u: "?us = JStr u" by blast
    show ?thesis
    proof (cases "align_identifier E f ?t (unify_dates E ?d3)")
      case (Inl e)
      then have "prepare_head E f (T d) = Inl e"
        unfolding unfold by (simp add: u)
      moreover from Inl have "prepare_head E f d = Inl e"
        unfolding prepare_head_def Let_def by (simp add: u)
      ultimately show ?thesis by simp
    next
      case (Inr d4)
      let ?voc = "removeprefix u ''https://mex.rki.de/item/''"
      have q4: "dict_has d4 q"
        using q3' dict_get_align_identifier[OF Inr ne(7,9,10)] by (simp add: dict_has_get)
      have q5: "dict_has (align_concept ?voc d4) q"
        using q4 dict_get_align_concept[OF ne(10), of ?voc d4] by (simp add: dict_has_get)
      have "prepare_head E f (T d) = kebab_ref E (align_concept ?voc (T d4))"
        unfolding unfold by (simp add: u Inr)
      also have "\<dots> = kebab_ref E (T (align_concept ?voc d4))"
        by (simp only: align_concept_frame_op[OF T q4 ne(10)])
      also have "\<dots> = map_sum id T (kebab_ref E (align_concept ?voc d4))"
        by (rule kebab_ref_frame_op[OF T q5 ne(10)])
      also have "kebab_ref E (align_concept ?voc d4) = prepare_head E f d"
        unfolding prepare_head_def Let_def by (simp add: u Inr)
      finally show ?thesis .
    qed
  qed
qed


lemma prepare_field_dict:
  "prepare_field E f (JDict d) =
     (case prepare_front E f d of
        Inl e \<Rightarrow> Inl e
      | Inr a \<Rightarrow>
          (case prepare_quantifiers E f (filter (dict_has a) (quantifier_order E)) a of
             Inl e \<Rightarrow> Inl e
           | Inr r \<Rightarrow> Inr (JDict r)))"
  by (simp add: prepare_front_def split: sum.splits)

lemma prepare_front_get:
  assumes "prepare_front E f d = Inr a" and "\<not> head_key k" and "k \<noteq> ''items''"
  shows "dict_get a k = dict_get d k"
proof -
  from assms(1) obtain h where h: "prepare_head E f d = Inr h"
    by (cases "prepare_head E f d") (simp_all add: prepare_front_def)
  from assms(1) h have "(dict_get h ''type'' \<noteq> Some (JStr ''array'') \<and> a = h)
         \<or> (dict_get h ''type'' = Some (JStr ''array'')
            \<and> (\<exists>items items'. dict_get h ''items'' = Some items
                  \<and> prepare_field E f items = Inr items'
                  \<and> a = dict_set ''items'' items' h))"
    by (intro array_step_InrD) (simp add: prepare_front_def)
  from array_step_frame[OF this assms(3)] have "dict_get a k = dict_get h k" .
  also have "\<dots> = dict_get d k"
    using assms(2) by (intro prepare_head_frame[OF h]) (simp add: head_key_def)
  finally show ?thesis .
qed

lemma prepare_front_frame_op:
  assumes T: "frame_op q T" and q: "dict_has d q" and nk: "\<not> head_key q" and ni: "q \<noteq> ''items''"
  shows "prepare_front E f (T d) = map_sum id T (prepare_front E f d)"
proof (cases "prepare_head E f d")
  case (Inl e)
  then show ?thesis
    using prepare_head_frame_op[OF T q nk, of E f] by (simp add: prepare_front_def)
next
  case (Inr h)
  then have hT: "prepare_head E f (T d) = Inr (T h)"
    using prepare_head_frame_op[OF T q nk, of E f] by simp
  have qh: "dict_has h q"
    using q prepare_head_frame[OF Inr, of q] nk by (simp add: dict_has_get head_key_def)
  have ty: "dict_get (T h) ''type'' = dict_get h ''type''"
    by (rule frame_opD(1)[OF T qh head_keyD(9)[OF nk, THEN not_sym]])
  have it: "dict_get (T h) ''items'' = dict_get h ''items''"
    by (rule frame_opD(1)[OF T qh ni[THEN not_sym]])
  have st: "dict_set ''items'' v (T h) = T (dict_set ''items'' v h)" for v
    by (rule frame_opD(3)[OF T qh ni[THEN not_sym], symmetric])
  show ?thesis
  proof (cases "dict_get h ''type'' = Some (JStr ''array'')")
    case False
    then show ?thesis
      by (simp add: prepare_front_def hT Inr ty)
  next
    case True
    show ?thesis
    proof (cases "dict_get h ''items''")
      case None
      then show ?thesis
        by (simp add: prepare_front_def hT Inr ty it True)
    next
      case (Some items)
      then show ?thesis
        by (cases "prepare_field E f items") (simp_all add: prepare_front_def hT Inr ty it True st)
    qed
  qed
qed

lemma prepare_items_iff:
  "prepare_items E f xs = Inr ys \<longleftrightarrow> list_all2 (\<lambda>x y. prepare_field E f x = Inr y) xs ys"
proof (induction xs arbitrary: ys)
  case Nil
  then show ?case by auto
next
  case (Cons x xs)
  show ?case
  proof (cases ys)
    case Nil
    then show ?thesis by (auto split: sum.splits)
  next
    case (Cons y ys')
    with Cons.IH[of ys'] show ?thesis by (auto split: sum.splits)
  qed
qed

lemma prepare_field_list_iff:
  "prepare_field E f (JList xs) = Inr y \<longleftrightarrow>
     (\<exists>ys. list_all2 (\<lambda>x y. prepare_field E f x = Inr y) xs ys \<and> y = JList (filter truthy ys))"
proof (cases "prepare_items E f xs")
  case (Inl e)
  then have "\<not> list_all2 (\<lambda>x y. prepare_field E f x = Inr y) xs ys" for ys
    using prepare_items_iff[of E f xs ys] by simp
  with Inl show ?thesis by simp
next
  case (Inr zs)
  then have "list_all2 (\<lambda>x y. prepare_field E f x = Inr y) xs ys \<longleftrightarrow> ys = zs" for ys
    using prepare_items_iff[of E f xs ys] by auto
  with Inr show ?thesis by auto
qed

lemma prepare_quantifiers_dissolve:
  assumes g: "dict_get a q = Some v"
    and p: "prepare_field E f v = Inr (JList zs)"
    and k: "fromkeys zs = [JDict item]"
  shows "prepare_quantifiers E f (q # rest) a
           = prepare_quantifiers E f rest (dict_update (dict_pop q a) item)"
proof -
  have d: "deduplicate_dicts (dict_set q (JList zs) a) q = Inr (dict_set q (JList [JDict item]) a)"
    by (simp add: deduplicate_dicts_def k dict_set_set_same)
  have "dissolve_single_item_lists (dict_set q (JList [JDict item]) a) q
      = dict_update (dict_pop q a) item"
    by (simp add: dissolve_single_item_lists_def dict_pop_set_same)
  with g p d show ?thesis by simp
qed

lemma filter_quantifiers_single:
  assumes "union_key q" "dict_has a q" "\<not> dict_has a (other_union_key q)"
  shows "filter (dict_has a) (quantifier_order E) = [q]"
  using assms by (auto simp: filter_quantifiers_cases union_key_def other_union_key_def)

lemma filter_quantifiers_none:
  assumes "union_key q" "\<not> dict_has a q" "\<not> dict_has a (other_union_key q)"
  shows "filter (dict_has a) (quantifier_order E) = []"
  using assms by (auto simp: filter_quantifiers_cases union_key_def other_union_key_def)

lemma union_key_not_head:
  assumes "union_key q"
  shows "\<not> head_key q" "q \<noteq> ''items''" "union_key (other_union_key q)"
    "\<not> head_key (other_union_key q)" "other_union_key q \<noteq> ''items''" "other_union_key q \<noteq> q"
  using assms by (auto simp: union_key_def other_union_key_def head_key_def)


lemma single_union_dissolves:
  assumes uk: "union_key q"
    and no: "\<not> dict_has d (other_union_key q)"
    and g: "dict_get d q = Some (JList alts)"
    and par: "prepare_field E f (JDict (dict_pop q d)) = Inr (JDict p)"
    and alts: "list_all2 (\<lambda>x y. prepare_field E f x = Inr y) alts ys"
    and one: "fromkeys (filter truthy ys) = [JDict item]"
  shows "prepare_field E f (JDict d) = Inr (JDict (dict_update p item))" and "\<not> dict_has p q"
proof -
  note nh = union_key_not_head[OF uk]
  have hq: "dict_has d q" using g by (simp add: dict_has_get)
  have fp: "prepare_front E f (dict_pop q d) = map_sum id (dict_pop q) (prepare_front E f d)"
    by (rule prepare_front_frame_op[OF frame_op_pop hq nh(1,2)])
  from par obtain ap where ap: "prepare_front E f (dict_pop q d) = Inr ap"
    by (cases "prepare_front E f (dict_pop q d)")
      (simp_all add: prepare_field_dict del: prepare_field.simps)
  with fp obtain a where a: "prepare_front E f d = Inr a" and apa: "ap = dict_pop q a"
    by (cases "prepare_front E f d") simp_all
  have gq: "dict_get a q = Some (JList alts)"
    using prepare_front_get[OF a nh(1,2)] g by simp
  have go: "dict_get a (other_union_key q) = None"
    using prepare_front_get[OF a nh(4,5)] no by (simp add: dict_has_get)
  have "\<not> dict_has ap q" "\<not> dict_has ap (other_union_key q)"
    using go nh(6) by (simp_all add: apa dict_has_get)
  then have "filter (dict_has ap) (quantifier_order E) = []"
    by (rule filter_quantifiers_none[OF uk])
  with par ap have p: "p = dict_pop q a"
    by (simp add: prepare_field_dict apa del: prepare_field.simps)
  show "\<not> dict_has p q" by (simp add: p)
  have f1: "filter (dict_has a) (quantifier_order E) = [q]"
    using gq go by (intro filter_quantifiers_single[OF uk]) (simp_all add: dict_has_get)
  have pl: "prepare_field E f (JList alts) = Inr (JList (filter truthy ys))"
    using alts prepare_field_list_iff[of E f alts] by blast
  have "prepare_quantifiers E f [q] a = prepare_quantifiers E f [] (dict_update (dict_pop q a) item)"
    by (rule prepare_quantifiers_dissolve[OF gq pl one])
  then show "prepare_field E f (JDict d) = Inr (JDict (dict_update p item))"
    by (simp add: prepare_field_dict a f1 p del: prepare_field.simps)
qed

section \<open>A fragment with one union container\<close>

lemma single_union_result:
  assumes uk: "union_key q" and no: "\<not> dict_has d (other_union_key q)"
    and g: "dict_get d q = Some (JList xs)"
  shows "prepare_field E f (JDict d) =
     (case prepare_front E f d of
        Inl e \<Rightarrow> Inl e
      | Inr a \<Rightarrow>
          (case prepare_items E f xs of
             Inl e \<Rightarrow> Inl e
           | Inr ys \<Rightarrow>
               Inr (JDict (dissolve_single_item_lists
                      (dict_set q (JList (fromkeys (filter truthy ys))) a) q))))"
proof (cases "prepare_front E f d")
  case (Inl e)
  then show ?thesis
    by (simp add: prepare_field_dict del: prepare_field.simps)
next
  case (Inr a)
  note nh = union_key_not_head[OF uk]
  have gq: "dict_get a q = Some (JList xs)"
    using prepare_front_get[OF Inr nh(1,2)] g by simp
  have go: "dict_get a (other_union_key q) = None"
    using prepare_front_get[OF Inr nh(4,5)] no by (simp add: dict_has_get)
  have f1: "filter (dict_has a) (quantifier_order E) = [q]"
    using gq go by (intro filter_quantifiers_single[OF uk]) (simp_all add: dict_has_get)
  have pf: "prepare_field E f (JDict d)
      = (case prepare_quantifiers E f [q] a of Inl e \<Rightarrow> Inl e | Inr r \<Rightarrow> Inr (JDict r))"
    by (simp add: prepare_field_dict Inr f1 del: prepare_field.simps)
  show ?thesis
  proof (cases "prepare_items E f xs")
    case (Inl e)
    then have "prepare_quantifiers E f [q] a = Inl e"
      by (simp add: gq)
    with pf Inr Inl show ?thesis by simp
  next
    case ys: (Inr ys)
    have "prepare_quantifiers E f [q] a
        = Inr (dissolve_single_item_lists (dict_set q (JList (fromkeys (filter truthy ys))) a) q)"
      by (simp add: gq ys deduplicate_dicts_def dict_set_set_same)
    with pf Inr ys show ?thesis by simp
  qed
qed

lemma prepare_items_map:
  "prepare_items E f xs = Inr ys \<longleftrightarrow>
     (\<forall>x \<in> set xs. \<exists>y. prepare_field E f x = Inr y)
     \<and> ys = map (\<lambda>x. projr (prepare_field E f x)) xs"
proof (induction xs arbitrary: ys)
  case Nil
  then show ?case by auto
next
  case (Cons x xs)
  show ?case
  proof (cases "prepare_field E f x")
    case (Inl e)
    then show ?thesis by auto
  next
    case (Inr y)
    show ?thesis
    proof (cases "prepare_items E f xs")
      case (Inl e)
      with Cons.IH Inr show ?thesis by auto
    next
      case zs: (Inr zs)
      with Cons.IH[of zs] Inr show ?thesis by auto
    qed
  qed
qed

lemma prepare_items_perm:
  assumes "mset xs' = mset xs"
  shows "(\<exists>e. prepare_items E f xs' = Inl e) \<longleftrightarrow> (\<exists>e. prepare_items E f xs = Inl e)"
    and "prepare_items E f xs = Inr ys \<Longrightarrow>
           \<exists>ys'. prepare_items E f xs' = Inr ys' \<and> mset ys' = mset ys"
proof -
  from assms have s: "set xs' = set xs" by (rule mset_eq_setD)
  have ok: "(\<exists>ys. prepare_items E f l = Inr ys)
      \<longleftrightarrow> (\<forall>x \<in> set l. \<exists>y. prepare_field E f x = Inr y)" for l
    using prepare_items_map[of E f l] by blast
  have "(\<exists>ys. prepare_items E f xs' = Inr ys) \<longleftrightarrow> (\<exists>ys. prepare_items E f xs = Inr ys)"
    by (simp add: ok s)
  then show "(\<exists>e. prepare_items E f xs' = Inl e) \<longleftrightarrow> (\<exists>e. prepare_items E f xs = Inl e)"
    by (metis sum.exhaust sum.distinct(1))
  show "\<exists>ys'. prepare_items E f xs' = Inr ys' \<and> mset ys' = mset ys"
    if "prepare_items E f xs = Inr ys"
  proof -
    let ?g = "\<lambda>x. projr (prepare_field E f x)"
    from that have a: "\<forall>x \<in> set xs. \<exists>y. prepare_field E f x = Inr y" and ys: "ys = map ?g xs"
      using prepare_items_map[of E f xs ys] by blast+
    from a s have "prepare_items E f xs' = Inr (map ?g xs')"
      using prepare_items_map[of E f xs' "map ?g xs'"] by simp
    moreover have "mset (map ?g xs') = mset ys"
      using assms by (simp add: ys)
    ultimately show ?thesis by blast
  qed
qed

lemma set_fold_keys:
  "set (map fst (fold (\<lambda>x acc. AList.update x () acc) xs acc)) = set (map fst acc) \<union> set xs"
proof (induction xs arbitrary: acc)
  case Nil
  then show ?case by simp
next
  case (Cons x xs)
  have "set (map fst (AList.update x () acc)) = insert x (set (map fst acc))"
    by (simp add: update_keys) auto
  with Cons.IH[of "AList.update x () acc"] show ?case by auto
qed

lemma distinct_fold_keys:
  "distinct (map fst acc) \<Longrightarrow> distinct (map fst (fold (\<lambda>x acc. AList.update x () acc) xs acc))"
  by (induction xs arbitrary: acc) (simp_all add: distinct_update)

lemma set_fromkeys [simp]: "set (fromkeys xs) = set xs"
  using set_fold_keys[of xs "[]"] by (simp add: fromkeys_def)

lemma distinct_fromkeys [simp]: "distinct (fromkeys xs)"
  using distinct_fold_keys[of "[]" xs] by (simp add: fromkeys_def)

lemma mset_fromkeys_perm:
  assumes "mset ys' = mset ys"
  shows "mset (fromkeys (filter P ys')) = mset (fromkeys (filter P ys))"
proof -
  from assms have "mset (filter P ys') = mset (filter P ys)" by simp
  then have "set (filter P ys') = set (filter P ys)" by (rule mset_eq_setD)
  then have "set (fromkeys (filter P ys')) = set (fromkeys (filter P ys))" by simp
  then show ?thesis
    by (simp add: set_eq_iff_mset_eq_distinct[symmetric])
qed


lemma dissolve_not_single:
  assumes "\<not> (\<exists>item. zs = [JDict item])"
  shows "dissolve_single_item_lists (dict_set q (JList zs) a) q = dict_set q (JList zs) a"
proof (cases zs)
  case Nil
  then show ?thesis by (simp add: dissolve_single_item_lists_def)
next
  case (Cons z zs')
  show ?thesis
  proof (cases zs')
    case Nil
    with Cons assms show ?thesis
      by (cases z) (simp_all add: dissolve_single_item_lists_def)
  next
    case (Cons z' zs'')
    with \<open>zs = z # zs'\<close> show ?thesis
      by (cases z) (simp_all add: dissolve_single_item_lists_def)
  qed
qed

lemma dissolve_perm:
  assumes "mset zs' = mset zs"
  shows "dissolve_single_item_lists (dict_set q (JList zs') a) q
           = dissolve_single_item_lists (dict_set q (JList zs) a) q
         \<or> (dissolve_single_item_lists (dict_set q (JList zs) a) q = dict_set q (JList zs) a
            \<and> dissolve_single_item_lists (dict_set q (JList zs') a) q = dict_set q (JList zs') a)"
proof (cases "\<exists>item. zs = [JDict item]")
  case True
  then obtain item where "zs = [JDict item]" by blast
  with assms have "zs' = zs" by simp
  then show ?thesis by simp
next
  case False
  have "\<not> (\<exists>item. zs' = [JDict item])"
  proof
    assume "\<exists>item. zs' = [JDict item]"
    then obtain item where "zs' = [JDict item]" by blast
    with assms have "zs = [JDict item]" by simp
    with False show False by blast
  qed
  with False show ?thesis
    by (simp add: dissolve_not_single)
qed

lemma union_permutation_aux:
  assumes uk: "union_key q" and no: "\<not> dict_has d (other_union_key q)"
    and g: "dict_get d q = Some (JList alts)" and perm: "mset alts' = mset alts"
  shows "(\<exists>e. prepare_field E f (JDict (dict_set q (JList alts') d)) = Inl e)
           \<longleftrightarrow> (\<exists>e. prepare_field E f (JDict d) = Inl e)"
    and "prepare_field E f (JDict d) = Inr (JDict r) \<Longrightarrow>
           \<exists>r'. prepare_field E f (JDict (dict_set q (JList alts') d)) = Inr (JDict r')
              \<and> (r' = r \<or> (\<exists>zs zs'. dict_get r q = Some (JList zs) \<and> mset zs' = mset zs
                               \<and> r' = dict_set q (JList zs') r))"
proof -
  note prepare_field.simps [simp del]
  let ?d' = "dict_set q (JList alts') d"
  note nh = union_key_not_head[OF uk]
  have hq: "dict_has d q" using g by (simp add: dict_has_get)
  have no': "\<not> dict_has ?d' (other_union_key q)" using no nh(6) by simp
  have g': "dict_get ?d' q = Some (JList alts')" by simp
  have fr: "prepare_front E f ?d' = map_sum id (dict_set q (JList alts')) (prepare_front E f d)"
    by (rule prepare_front_frame_op[OF frame_op_set hq nh(1,2)])
  note res = single_union_result[OF uk no g, of E f]
  note res' = single_union_result[OF uk no' g', of E f]
  show "(\<exists>e. prepare_field E f (JDict ?d') = Inl e) \<longleftrightarrow> (\<exists>e. prepare_field E f (JDict d) = Inl e)"
  proof (cases "prepare_front E f d")
    case (Inl e)
    with fr show ?thesis by (simp add: res res')
  next
    case (Inr a)
    with fr have a': "prepare_front E f ?d' = Inr (dict_set q (JList alts') a)" by simp
    have "(\<exists>e. prepare_field E f (JDict ?d') = Inl e) \<longleftrightarrow> (\<exists>e. prepare_items E f alts' = Inl e)"
      by (cases "prepare_items E f alts'") (simp_all add: res' a')
    also have "\<dots> \<longleftrightarrow> (\<exists>e. prepare_items E f alts = Inl e)"
      by (rule prepare_items_perm(1)[OF perm])
    also have "\<dots> \<longleftrightarrow> (\<exists>e. prepare_field E f (JDict d) = Inl e)"
      by (cases "prepare_items E f alts") (simp_all add: res Inr)
    finally show ?thesis .
  qed
  show "\<exists>r'. prepare_field E f (JDict ?d') = Inr (JDict r')
              \<and> (r' = r \<or> (\<exists>zs zs'. dict_get r q = Some (JList zs) \<and> mset zs' = mset zs
                               \<and> r' = dict_set q (JList zs') r))"
    if ok: "prepare_field E f (JDict d) = Inr (JDict r)"
  proof -
    from ok obtain a where a: "prepare_front E f d = Inr a"
      by (cases "prepare_front E f d") (simp_all add: res)
    from ok a obtain ys where ys: "prepare_items E f alts = Inr ys"
      by (cases "prepare_items E f alts") (simp_all add: res)
    let ?zs = "fromkeys (filter truthy ys)"
    from ok a ys have r: "r = dissolve_single_item_lists (dict_set q (JList ?zs) a) q"
      by (simp add: res)
    from prepare_items_perm(2)[OF perm ys] obtain ys' where
      ys': "prepare_items E f alts' = Inr ys'" and m: "mset ys' = mset ys" by blast
    let ?zs' = "fromkeys (filter truthy ys')"
    have mz: "mset ?zs' = mset ?zs" by (rule mset_fromkeys_perm[OF m])
    from fr a have a': "prepare_front E f ?d' = Inr (dict_set q (JList alts') a)" by simp
    let ?r' = "dissolve_single_item_lists (dict_set q (JList ?zs') a) q"
    have r': "prepare_field E f (JDict ?d') = Inr (JDict ?r')"
      by (simp add: res' a' ys' dict_set_set_same)
    from dissolve_perm[OF mz, of q a]
    have "?r' = r \<or> (\<exists>zs zs'. dict_get r q = Some (JList zs) \<and> mset zs' = mset zs
                               \<and> ?r' = dict_set q (JList zs') r)"
    proof
      assume "?r' = dissolve_single_item_lists (dict_set q (JList ?zs) a) q"
      then show ?thesis by (simp add: r)
    next
      assume b: "dissolve_single_item_lists (dict_set q (JList ?zs) a) q = dict_set q (JList ?zs) a
            \<and> ?r' = dict_set q (JList ?zs') a"
      then have "r = dict_set q (JList ?zs) a" by (simp add: r)
      then have "dict_get r q = Some (JList ?zs)" "dict_set q (JList ?zs') r = dict_set q (JList ?zs') a"
        by (simp_all add: dict_set_set_same)
      with b mz show ?thesis by metis
    qed
    with r' show ?thesis by blast
  qed
qed

section \<open>Normalizing a normalized fragment\<close>

lemma prepare_head_popped:
  assumes "prepare_head E f d = Inr h"
    and "k = ''sameAs'' \<or> k = ''subPropertyOf'' \<or> k = ''description'' \<or> k = ''title''
         \<or> k = ''useScheme''"
  shows "dict_get h k = None"
proof -
  let ?d3 = "dict_pop ''useScheme'' (dict_pop ''title'' (discard_annotations d))"
  from assms(1) obtain u d4 where
    a: "align_identifier E f (pop_default ''title'' (JStr []) (discard_annotations d))
          (unify_dates E ?d3) = Inr d4"
    and k: "kebab_ref E (align_concept (removeprefix u ''https://mex.rki.de/item/'') d4) = Inr h"
    by (rule prepare_head_InrD)
  from assms(2) have ne: "k \<noteq> ''$ref''" "k \<noteq> ''pattern''" "k \<noteq> ''type''"
    "k \<noteq> ''examples''" "k \<noteq> ''format''"
    by auto
  have "dict_get h k = dict_get d4 k"
    using dict_get_kebab_ref[OF k ne(1)] dict_get_align_concept[OF ne(1)] by simp
  also have "\<dots> = dict_get ?d3 k"
    using dict_get_align_identifier[OF a ne(2,3,1)] dict_get_unify_dates[OF ne(4,2,5)] by simp
  also have "\<dots> = None"
    using assms(2) by (auto simp: dict_get_discard)
  finally show ?thesis .
qed

lemma prepare_head_pattern:
  assumes "prepare_head E f d = Inr h"
  shows "dict_get h ''pattern'' = (if is_date E d \<or> is_identifier E d then None else dict_get d ''pattern'')"
proof -
  let ?d3 = "dict_pop ''useScheme'' (dict_pop ''title'' (discard_annotations d))"
  from assms(1) obtain u d4 where
    a: "align_identifier E f (pop_default ''title'' (JStr []) (discard_annotations d))
          (unify_dates E ?d3) = Inr d4"
    and k: "kebab_ref E (align_concept (removeprefix u ''https://mex.rki.de/item/'') d4) = Inr h"
    by (rule prepare_head_InrD)
  have hp: "dict_get h ''pattern'' = dict_get d4 ''pattern''"
    using dict_get_kebab_ref[OF k, of "''pattern''"] dict_get_align_concept[of "''pattern''"] by simp
  have p3: "dict_get ?d3 ''pattern'' = dict_get d ''pattern''"
    by (simp add: dict_get_discard)
  show ?thesis
  proof (cases "is_date E d")
    case True
    with prepare_head_date(2)[OF assms True] show ?thesis by simp
  next
    case False
    then have ud: "unify_dates E ?d3 = ?d3"
      by (simp add: unify_dates_def is_date_pops)
    show ?thesis
    proof (cases "is_identifier E d")
      case True
      then have "is_identifier E ?d3" by (simp add: is_identifier_def dict_get_discard)
      with a ud have "dict_get d4 ''pattern'' = None"
        by (auto simp: align_identifier_def Let_def split: if_splits json.splits)
      with True hp show ?thesis by simp
    next
      case nid: False
      then have "\<not> is_identifier E ?d3" by (simp add: is_identifier_def dict_get_discard)
      with a ud have "d4 = ?d3" by (simp add: align_identifier_def)
      with False nid hp p3 show ?thesis by simp
    qed
  qed
qed

lemma prepare_head_format:
  assumes "prepare_head E f d = Inr h" and "\<not> is_date E d"
  shows "dict_get h ''format'' = dict_get d ''format''"
proof -
  let ?d3 = "dict_pop ''useScheme'' (dict_pop ''title'' (discard_annotations d))"
  from assms(1) obtain u d4 where
    a: "align_identifier E f (pop_default ''title'' (JStr []) (discard_annotations d))
          (unify_dates E ?d3) = Inr d4"
    and k: "kebab_ref E (align_concept (removeprefix u ''https://mex.rki.de/item/'') d4) = Inr h"
    by (rule prepare_head_InrD)
  have ud: "unify_dates E ?d3 = ?d3"
    using assms(2) by (simp add: unify_dates_def is_date_pops)
  have "dict_get h ''format'' = dict_get d4 ''format''"
    using dict_get_kebab_ref[OF k, of "''format''"] dict_get_align_concept[of "''format''"] by simp
  also have "\<dots> = dict_get ?d3 ''format''"
    using dict_get_align_identifier[OF a, of "''format''"] ud by simp
  also have "\<dots> = dict_get d ''format''"
    by (simp add: dict_get_discard)
  finally show ?thesis .
qed

lemma unify_dates_prepared:
  assumes h: "prepare_head E f d = Inr h"
  shows "unify_dates E h = h" and "\<not> is_identifier E h"
proof -
  show "unify_dates E h = h"
  proof (cases "is_date E d")
    case True
    note hd = prepare_head_date[OF h True]
    have "dict_pop ''pattern'' (dict_pop ''examples'' h) = h"
      using hd by (simp add: dict_pop_absent dict_has_get)
    moreover have "dict_set ''format'' (JStr ''date-time'') h = h"
      using hd(1) by (rule dict_set_same)
    ultimately show ?thesis by (simp add: unify_dates_def)
  next
    case False
    have "dict_get h ''format'' = dict_get d ''format''"
      by (rule prepare_head_format[OF h False])
    moreover have "dict_get h ''pattern'' = None \<or> dict_get h ''pattern'' = dict_get d ''pattern''"
      using prepare_head_pattern[OF h] by (simp split: if_splits)
    ultimately have "\<not> is_date E h"
      using False by (auto simp: is_date_def)
    then show ?thesis by (simp add: unify_dates_def)
  qed
  show "\<not> is_identifier E h"
    using prepare_head_pattern[OF h] by (auto simp: is_identifier_def split: if_splits)
qed

lemma prepare_head_idem:
  assumes h: "prepare_head E f d = Inr h" and rs: "ref_settled E h"
  shows "prepare_head E f h = Inr h"
proof -
  have none: "dict_get h ''sameAs'' = None" "dict_get h ''subPropertyOf'' = None"
    "dict_get h ''description'' = None" "dict_get h ''title'' = None"
    "dict_get h ''useScheme'' = None"
    by (simp_all add: prepare_head_popped[OF h])
  then have d1: "discard_annotations h = h"
    by (simp add: discard_annotations_def dict_pop_absent dict_has_get)
  have d2: "dict_pop ''title'' h = h" "dict_pop ''useScheme'' h = h"
    using none by (simp_all add: dict_pop_absent dict_has_get)
  have t: "pop_default ''title'' (JStr []) h = JStr []" "pop_default ''useScheme'' (JStr []) h = JStr []"
    using none by (simp_all add: pop_default_def)
  note ud = unify_dates_prepared[OF h]
  have ai: "align_identifier E f (JStr []) h = Inr h"
    using ud(2) by (simp add: align_identifier_def)
  have ac: "align_concept v h = h" for v
    using rs by (auto simp: align_concept_def ref_settled_def split: option.splits json.splits)
  have kr: "kebab_ref E h = Inr h"
  proof (cases "dict_get h ''$ref''")
    case None
    then show ?thesis by (simp add: kebab_ref_def)
  next
    case (Some v)
    with rs obtain r where r: "v = JStr r" "sub_only_text (dromedary_to_kebab E) r = r"
      by (cases v) (simp_all add: ref_settled_def)
    with Some have "dict_set ''$ref'' (JStr r) h = h" by (simp add: dict_set_same)
    with Some r show ?thesis by (simp add: kebab_ref_def)
  qed
  show ?thesis
    by (simp add: prepare_head_def Let_def d1 d2 t ud(1) ai ac kr)
qed


lemma prepare_items_fixed:
  assumes "\<forall>z \<in> set zs. prepare_field E f z = Inr z"
  shows "prepare_items E f zs = Inr zs"
  using assms by (induction zs) simp_all

lemma union_free_dictD:
  assumes "union_free (JDict d)"
  shows "\<not> dict_has d ''anyOf''" "\<not> dict_has d ''allOf''"
    and "dict_get d ''items'' = Some v \<Longrightarrow> union_free v"
proof -
  from assms show "\<not> dict_has d ''anyOf''" "\<not> dict_has d ''allOf''" by simp_all
  from assms have all: "\<forall>p \<in> set d. fst p = ''items'' \<longrightarrow> union_free (snd p)" by simp
  show "union_free v" if "dict_get d ''items'' = Some v"
    using all dict_get_in_set[OF that] by fastforce
qed

lemma refs_settled_dictD:
  assumes "refs_settled E (JDict d)"
  shows "ref_settled E d" and "dict_get d ''items'' = Some v \<Longrightarrow> refs_settled E v"
proof -
  from assms show "ref_settled E d" by simp
  from assms have all: "\<forall>p \<in> set d. fst p = ''items'' \<longrightarrow> refs_settled E (snd p)" by simp
  show "refs_settled E v" if "dict_get d ''items'' = Some v"
    using all dict_get_in_set[OF that] by fastforce
qed

lemma idempotent_aux:
  "\<forall>y. union_free x \<longrightarrow> prepare_field E f x = Inr y \<longrightarrow> refs_settled E y
        \<longrightarrow> prepare_field E f y = Inr y"
  "\<forall>ys. prepare_items E f xs = Inr ys \<longrightarrow>
     (\<forall>x \<in> set xs. \<forall>y. union_free x \<longrightarrow> prepare_field E f x = Inr y \<longrightarrow> refs_settled E y
        \<longrightarrow> prepare_field E f y = Inr y)"
  "prepare_quantifiers E f qs a = prepare_quantifiers E f qs a"
proof (induct E f x and E f xs and E f qs a
    rule: prepare_field_prepare_items_prepare_quantifiers.induct)
  case (1 E field obj)
  show ?case
  proof (intro allI impI)
    fix y
    assume uf: "union_free (JList obj)" and p: "prepare_field E field (JList obj) = Inr y"
      and rs: "refs_settled E y"
    from p obtain ys where ys: "prepare_items E field obj = Inr ys"
      and y: "y = JList (filter truthy ys)"
      by (cases "prepare_items E field obj") simp_all
    let ?g = "\<lambda>x. projr (prepare_field E field x)"
    from ys have ok: "\<forall>x \<in> set obj. \<exists>y. prepare_field E field x = Inr y" and m: "ys = map ?g obj"
      using prepare_items_map[of E field obj ys] by blast+
    have fixed: "prepare_field E field z = Inr z" if z: "z \<in> set (filter truthy ys)" for z
    proof -
      from z m obtain x where x: "x \<in> set obj" and zx: "z = ?g x" by auto
      from ok x obtain y' where y': "prepare_field E field x = Inr y'" by blast
      with zx have pz: "prepare_field E field x = Inr z" by simp
      from uf x have "union_free x" by simp
      moreover from rs y z have "refs_settled E z" by simp
      ultimately show ?thesis
        using "1.hyps" ys x pz by blast
    qed
    then have "prepare_items E field (filter truthy ys) = Inr (filter truthy ys)"
      by (intro prepare_items_fixed) blast
    then show "prepare_field E field y = Inr y"
      by (simp add: y)
  qed
next
  case (2 E field obj0)
  show ?case
  proof (intro allI impI)
    fix y
    assume uf: "union_free (JDict obj0)" and p: "prepare_field E field (JDict obj0) = Inr y"
      and rs: "refs_settled E y"
    note ufD = union_free_dictD[OF uf]
    from p ufD(1,2) obtain h a where h: "prepare_head E field obj0 = Inr h" and y: "y = JDict a"
      and a: "(dict_get h ''type'' \<noteq> Some (JStr ''array'') \<and> a = h)
         \<or> (dict_get h ''type'' = Some (JStr ''array'')
            \<and> (\<exists>items items'. dict_get h ''items'' = Some items
                  \<and> prepare_field E field items = Inr items'
                  \<and> a = dict_set ''items'' items' h))"
      by (rule prepare_field_no_union)
    note rsD = refs_settled_dictD[OF rs[unfolded y]]
    have ref: "dict_get a ''$ref'' = dict_get h ''$ref''"
      by (rule array_step_frame[OF a]) simp
    from rsD(1) ref have rh: "ref_settled E h"
      by (simp add: ref_settled_def)
    have hh: "prepare_head E field h = Inr h"
      by (rule prepare_head_idem[OF h rh])
    have nu: "\<not> dict_has a ''anyOf''" "\<not> dict_has a ''allOf''"
    proof -
      have "dict_get h k = dict_get obj0 k" if "k = ''anyOf'' \<or> k = ''allOf''" for k
        using that by (intro prepare_head_frame[OF h]) auto
      moreover have "dict_get a k = dict_get h k" if "k = ''anyOf'' \<or> k = ''allOf''" for k
        using that by (intro array_step_frame[OF a]) auto
      ultimately show "\<not> dict_has a ''anyOf''" "\<not> dict_has a ''allOf''"
        using ufD(1,2) by (simp_all add: dict_has_get)
    qed
    have fl: "filter (dict_has a) (quantifier_order E) = []"
      using nu by (simp add: filter_quantifiers_cases)
    have front: "prepare_front E field a = Inr a"
    proof (cases "dict_get h ''type'' = Some (JStr ''array'')")
      case False
      with a have "a = h" by blast
      with hh False show ?thesis by (simp add: prepare_front_def)
    next
      case True
      with a obtain items items' where i: "dict_get h ''items'' = Some items"
        and pi: "prepare_field E field items = Inr items'"
        and a': "a = dict_set ''items'' items' h"
        by blast
      have hi: "dict_has h ''items''" using i by (simp add: dict_has_get)
      have ha: "prepare_head E field a = Inr a"
        unfolding a'
        using prepare_head_frame_op[OF frame_op_set hi, of E field items'] hh
        by (simp add: head_key_def)
      have ta: "dict_get a ''type'' = Some (JStr ''array'')" using True by (simp add: a')
      have ia: "dict_get a ''items'' = Some items'" by (simp add: a')
      have "dict_get obj0 ''items'' = Some items"
        using prepare_head_frame[OF h, of "''items''"] i by simp
      then have "union_free items" by (rule ufD(3))
      moreover have "refs_settled E items'" by (rule rsD(2)[OF ia])
      ultimately have "prepare_field E field items' = Inr items'"
        using "2.hyps"(1)[OF h True i] pi by blast
      moreover have "dict_set ''items'' items' a = a"
        using ia by (rule dict_set_same)
      ultimately show ?thesis
        by (simp add: prepare_front_def ha ta ia)
    qed
    show "prepare_field E field y = Inr y"
      unfolding y by (simp add: prepare_field_dict front fl del: prepare_field.simps)
  qed
next
  case (8 E field item rest)
  show ?case
  proof (intro allI impI)
    fix ys
    assume ys: "prepare_items E field (item # rest) = Inr ys"
    then obtain b where b: "prepare_field E field item = Inr b"
      by (cases "prepare_field E field item") simp_all
    with ys obtain bs where bs: "prepare_items E field rest = Inr bs"
      by (cases "prepare_items E field rest") simp_all
    from "8.hyps"(1) "8.hyps"(2)[OF b] bs
    show "\<forall>x \<in> set (item # rest). \<forall>y. union_free x \<longrightarrow> prepare_field E field x = Inr y
        \<longrightarrow> refs_settled E y \<longrightarrow> prepare_field E field y = Inr y"
      by simp
  qed
qed simp_all


section \<open>The field normalizer\<close>








text \<open>
  The condition on the references is needed as well: in the sample environment the
  kebab-casing turns a reference to \<^verbatim>\<open>Concept\<close> into the generic concept reference, which a
  second application rewrites to a vocabulary reference.
\<close>

lemma normalization_reference_not_idempotent:
  "prepare_field sample_env ''theme''
      (JDict [(''$ref'', JStr ''/schema/entities/Concept#/identifier'')])
     = Inr (JDict [(''$ref'', JStr ''/schema/entities/concept#/identifier'')])
   \<and> prepare_field sample_env ''theme''
      (JDict [(''$ref'', JStr ''/schema/entities/concept#/identifier'')])
     = Inr (JDict [(''$ref'', JStr ''/schema/fields/'')])"
  by code_simp













section \<open>The schema loader and the comparator\<close>

lemma load_entries_fails:
  assumes "\<exists>file \<in> set files. file = None
             \<or> (\<exists>doc. file = Some (JDict doc) \<and> doc \<noteq> [] \<and> \<not> dict_has doc ''title'')"
  shows "\<exists>e. load_entries acc files = Inl e"
  using assms
proof (induction files arbitrary: acc)
  case Nil
  then show ?case by simp
next
  case (Cons fl files)
  show ?case
  proof (cases fl)
    case None
    then show ?thesis by simp
  next
    case (Some schema)
    show ?thesis
    proof (cases "\<exists>doc. schema = JDict doc \<and> doc \<noteq> [] \<and> \<not> dict_has doc ''title''")
      case True
      then obtain doc where "schema = JDict doc" "doc \<noteq> []" "dict_get doc ''title'' = None"
        by (auto simp: dict_has_get)
      with Some show ?thesis by simp
    next
      case False
      with Cons.prems Some have rest: "\<exists>file \<in> set files. file = None
             \<or> (\<exists>doc. file = Some (JDict doc) \<and> doc \<noteq> [] \<and> \<not> dict_has doc ''title'')"
        by auto
      note ih = Cons.IH[OF rest]
      show ?thesis
      proof (cases "truthy schema")
        case False
        with Some ih[of acc] show ?thesis by simp
      next
        case True
        show ?thesis
        proof (cases "py_getitem schema ''title''")
          case (Inl e)
          with Some True show ?thesis by simp
        next
          case (Inr t)
          show ?thesis
          proof (cases t)
            case (JStr title)
            with Some True Inr ih[of acc] ih[of "dict_set (remove_spaces title) schema acc"]
            show ?thesis by simp
          qed (use Some True Inr in simp_all)
        qed
      qed
    qed
  qed
qed

text \<open>
  C7 (as amended). Loading the specified schema set fails whenever a file of the
  directory is not JSON or holds a non-empty object without a \<^verbatim>\<open>title\<close> key, and then no
  schema set exists: the module raises while it is imported. The exception is
  \<^verbatim>\<open>JSONDecodeError\<close> for a first file that is not JSON and \<^verbatim>\<open>KeyError\<close> for a first file
  with a non-empty object without title; the code has no \<^verbatim>\<open>LoadError\<close>. An empty document
  lacks the title as well, but it is falsy and the filter skips it without any failure.
\<close>

theorem specified_schemas_load_fails:
  "((\<exists>file \<in> set files. file = None
       \<or> (\<exists>doc. file = Some (JDict doc) \<and> doc \<noteq> [] \<and> \<not> dict_has doc ''title''))
      \<longrightarrow> (\<exists>e. SPECIFIED_SCHEMAS files = Inl e))
   \<and> SPECIFIED_SCHEMAS (None # files) = Inl JSONDecodeError
   \<and> (doc \<noteq> [] \<and> \<not> dict_has doc ''title''
        \<longrightarrow> SPECIFIED_SCHEMAS (Some (JDict doc) # files) = Inl KeyError)"
proof (intro conjI impI)
  assume "\<exists>file \<in> set files. file = None
       \<or> (\<exists>doc. file = Some (JDict doc) \<and> doc \<noteq> [] \<and> \<not> dict_has doc ''title'')"
  from load_entries_fails[OF this, of "[]"] show "\<exists>e. SPECIFIED_SCHEMAS files = Inl e"
    by (auto simp: SPECIFIED_SCHEMAS_def)
next
  show "SPECIFIED_SCHEMAS (None # files) = Inl JSONDecodeError"
    by (simp add: SPECIFIED_SCHEMAS_def)
next
  assume "doc \<noteq> [] \<and> \<not> dict_has doc ''title''"
  then show "SPECIFIED_SCHEMAS (Some (JDict doc) # files) = Inl KeyError"
    by (simp add: SPECIFIED_SCHEMAS_def dict_has_get)
qed

theorem specified_schemas_load_fails_witness:
  "(\<exists>e. SPECIFIED_SCHEMAS
          [Some (JDict [(''title'', JStr ''Variable''), (''properties'', JDict [])]), None]
        = Inl e)
   \<and> [(''properties'', JDict [])] \<noteq> [] \<and> \<not> dict_has [(''properties'', JDict [])] ''title''
   \<and> SPECIFIED_SCHEMAS
        [Some (JDict [(''properties'', JDict [])]),
         Some (JDict [(''title'', JStr ''Variable''), (''properties'', JDict [])])]
       = Inl KeyError"
proof -
  let ?ok = "Some (JDict [(''title'', JStr ''Variable''), (''properties'', JDict [])])"
  have a: "\<exists>file \<in> set [?ok, None]. file = None
       \<or> (\<exists>doc. file = Some (JDict doc) \<and> doc \<noteq> [] \<and> \<not> dict_has doc ''title'')"
    by simp
  have b: "[(''properties'', JDict [])] \<noteq> []" "\<not> dict_has [(''properties'', JDict [])] ''title''"
    by (simp_all add: dict_has_def)
  from specified_schemas_load_fails[of "[?ok, None]"] a
  have 1: "\<exists>e. SPECIFIED_SCHEMAS [?ok, None] = Inl e" by blast
  from specified_schemas_load_fails[of "[?ok]" "[(''properties'', JDict [])]"] b
  have 2: "SPECIFIED_SCHEMAS [Some (JDict [(''properties'', JDict [])]), ?ok] = Inl KeyError"
    by blast
  from 1 2 b show ?thesis by blast
qed

theorem specified_schemas_load_counterexample:
  "SPECIFIED_SCHEMAS
     [Some (JDict []), Some (JDict [(''title'', JStr ''Variable''), (''properties'', JDict [])])]
   = Inr [(''Variable'', JDict [(''title'', JStr ''Variable''), (''properties'', JDict [])])]"
  by code_simp

lemma py_eq_str: "py_eq x (JStr s) \<longleftrightarrow> x = JStr s"
  by (cases x) auto

lemma startswith_iff: "startswith b a \<longleftrightarrow> (\<exists>post. b = a @ post)"
proof
  assume "startswith b a"
  then have "b = a @ drop (length a) b"
    by (metis append_take_drop_id startswith_def)
  then show "\<exists>post. b = a @ post" ..
next
  assume "\<exists>post. b = a @ post"
  then show "startswith b a" by (auto simp: startswith_def)
qed

lemma is_substring_iff: "is_substring a b \<longleftrightarrow> (\<exists>pre post. b = pre @ a @ post)"
proof (induction b)
  case Nil
  then show ?case by auto
next
  case (Cons c cs)
  show ?case
  proof
    assume "is_substring a (c # cs)"
    then consider "startswith (c # cs) a" | "is_substring a cs" by auto
    then show "\<exists>pre post. c # cs = pre @ a @ post"
    proof cases
      case 1
      then obtain post where "c # cs = a @ post" by (auto simp: startswith_iff)
      then have "c # cs = [] @ a @ post" by simp
      then show ?thesis by blast
    next
      case 2
      with Cons.IH obtain pre post where "cs = pre @ a @ post" by blast
      then have "c # cs = (c # pre) @ a @ post" by simp
      then show ?thesis by blast
    qed
  next
    assume "\<exists>pre post. c # cs = pre @ a @ post"
    then obtain pre post where e: "c # cs = pre @ a @ post" by blast
    show "is_substring a (c # cs)"
    proof (cases pre)
      case Nil
      with e have "startswith (c # cs) a" by (auto simp: startswith_iff)
      then show ?thesis by simp
    next
      case (Cons p pre')
      with e have "cs = pre' @ a @ post" by simp
      with Cons.IH have "is_substring a cs" by blast
      then show ?thesis by simp
    qed
  qed
qed

lemma test_passes_iff:
  assumes c: "discriminant_const generated = Inr (JStr const)"
  shows "test_entity_type_matches_class_name generated specified = Passed \<longleftrightarrow>
     py_getitem generated ''title'' = Inr (JStr const)
     \<and> (\<exists>stitle. py_getitem specified ''title'' = Inr (JStr stitle)
           \<and> is_substring (remove_spaces stitle) const)"
proof (cases "py_getitem generated ''title''")
  case (Inl e)
  then show ?thesis by (simp add: test_entity_type_matches_class_name_def)
next
  case (Inr title)
  show ?thesis
  proof (cases "title = JStr const")
    case False
    with Inr c show ?thesis
      by (simp add: test_entity_type_matches_class_name_def py_eq_str)
  next
    case True
    show ?thesis
    proof (cases "py_getitem specified ''title''")
      case (Inl e)
      with Inr c True show ?thesis
        by (simp add: test_entity_type_matches_class_name_def py_eq_str)
    next
      case st: (Inr st)
      with Inr c True show ?thesis
        by (cases st) (simp_all add: test_entity_type_matches_class_name_def py_eq_str)
    qed
  qed
qed

text \<open>
  C8 (as amended). For a generated document whose \<^verbatim>\<open>$type\<close> constant is a string, the
  discriminant check passes exactly when the generated document's title, which is the
  entity name that the check reads, equals the constant and the specified document's
  title is a string that, with its space characters removed, is a substring of the
  constant. The check removes spaces only (\<^verbatim>\<open>replace(" ", "")\<close>): with the spec's wording,
  which removes all whitespace, the claim fails on a title that holds a tab.
\<close>

theorem discriminant_check:
  "discriminant_const generated = Inr (JStr const) \<longrightarrow>
     (test_entity_type_matches_class_name generated specified = Passed \<longleftrightarrow>
        py_getitem generated ''title'' = Inr (JStr const)
        \<and> (\<exists>stitle pre post. py_getitem specified ''title'' = Inr (JStr stitle)
              \<and> const = pre @ remove_spaces stitle @ post))"
  using test_passes_iff[of generated const specified] by (auto simp: is_substring_iff)

theorem discriminant_check_witness:
  "discriminant_const
      (JDict [(''title'', JStr ''ExtractedOrganizationalUnit''),
              (''properties'', JDict [(''$type'', JDict [(''const'', JStr ''ExtractedOrganizationalUnit'')])])])
     = Inr (JStr ''ExtractedOrganizationalUnit'')
   \<and> test_entity_type_matches_class_name
      (JDict [(''title'', JStr ''ExtractedOrganizationalUnit''),
              (''properties'', JDict [(''$type'', JDict [(''const'', JStr ''ExtractedOrganizationalUnit'')])])])
      (JDict [(''title'', JStr ''Organizational Unit'')]) = Passed
   \<and> ''ExtractedOrganizationalUnit'' = ''Extracted'' @ remove_spaces ''Organizational Unit'' @ []"
proof -
  let ?g = "JDict [(''title'', JStr ''ExtractedOrganizationalUnit''),
              (''properties'', JDict [(''$type'', JDict [(''const'', JStr ''ExtractedOrganizationalUnit'')])])]"
  let ?s = "JDict [(''title'', JStr ''Organizational Unit'')]"
  have a: "discriminant_const ?g = Inr (JStr ''ExtractedOrganizationalUnit'')" by code_simp
  have b: "py_getitem ?g ''title'' = Inr (JStr ''ExtractedOrganizationalUnit'')" by code_simp
  have c: "py_getitem ?s ''title'' = Inr (JStr ''Organizational Unit'')" by code_simp
  have d: "''ExtractedOrganizationalUnit'' = ''Extracted'' @ remove_spaces ''Organizational Unit'' @ []"
    by code_simp
  from discriminant_check[of ?g "''ExtractedOrganizationalUnit''" ?s] a b c d
  have "test_entity_type_matches_class_name ?g ?s = Passed" by blast
  with a d show ?thesis by blast
qed

theorem discriminant_check_counterexample:
  "discriminant_check_spec
      (JDict [(''title'', JStr ''ExtractedVariable''),
              (''properties'', JDict [(''$type'', JDict [(''const'', JStr ''ExtractedVariable'')])])])
      (JDict [(''title'', JStr (''Vari'' @ [CHR 0x09] @ ''able''))])
   \<and> test_entity_type_matches_class_name
      (JDict [(''title'', JStr ''ExtractedVariable''),
              (''properties'', JDict [(''$type'', JDict [(''const'', JStr ''ExtractedVariable'')])])])
      (JDict [(''title'', JStr (''Vari'' @ [CHR 0x09] @ ''able''))]) = AssertionFailed"
  by code_simp

section \<open>The settings singleton\<close>

lemma isinstance_new: "isinstance \<lparr> ident = n, class_of = cls \<rparr> cls"
  by (simp add: isinstance_def)

lemma get_empty:
  assumes "SettingsContext st = None" and "validates cls"
  shows "get validates cls st =
     (Inr \<lparr> ident = next_ident st, class_of = cls \<rparr>,
      \<lparr> SettingsContext = Some \<lparr> ident = next_ident st, class_of = cls \<rparr>,
        next_ident = Suc (next_ident st) \<rparr>)"
  using assms by (simp add: get_def Let_def isinstance_new)

lemma get_loaded:
  assumes "SettingsContext st = Some settings"
  shows "get validates cls st =
     (if isinstance settings cls then (Inr settings, st) else (Inl RuntimeError, st))"
  using assms by (simp add: get_def)

lemma get_runtime_error_iff:
  "fst (get validates cls st) = Inl RuntimeError \<longleftrightarrow>
     (\<exists>settings. SettingsContext st = Some settings \<and> \<not> isinstance settings cls)"
proof (cases "SettingsContext st")
  case None
  then show ?thesis
    by (cases "validates cls") (simp_all add: get_empty, simp add: get_def)
next
  case (Some settings)
  then show ?thesis by (simp add: get_loaded)
qed



section \<open>Wikidata claims\<close>

text \<open>
  C10. The pre-parse transform of a wikidata \<^verbatim>\<open>DataValue\<close> wraps a raw value that is
  \<^verbatim>\<open>None\<close> (also when the key is absent) or a string \<open>s\<close> as
  \<^verbatim>\<open>{'value': {'language': None, 'text': s}}\<close>, and returns an input whose value is
  already a mapping unchanged.
\<close>

theorem transform_strings_to_dict_wraps:
  "(dict_get values ''value'' = None \<or> dict_get values ''value'' = Some JNull \<longrightarrow>
      transform_strings_to_dict values =
        [(''value'', JDict [(''language'', JNull), (''text'', JNull)])])
   \<and> (dict_get values ''value'' = Some (JStr s) \<longrightarrow>
      transform_strings_to_dict values =
        [(''value'', JDict [(''language'', JNull), (''text'', JStr s)])])
   \<and> (dict_get values ''value'' = Some (JDict m) \<longrightarrow>
      transform_strings_to_dict values = values)"
  by (auto simp: transform_strings_to_dict_def Let_def)

theorem transform_strings_to_dict_wraps_witness:
  "transform_strings_to_dict [(''type'', JStr ''string'')] =
     [(''value'', JDict [(''language'', JNull), (''text'', JNull)])]
   \<and> transform_strings_to_dict [(''value'', JStr ''Q42''), (''type'', JStr ''string'')] =
     [(''value'', JDict [(''language'', JNull), (''text'', JStr ''Q42'')])]
   \<and> transform_strings_to_dict
       [(''value'', JDict [(''text'', JStr ''RKI''), (''language'', JStr ''de'')])] =
     [(''value'', JDict [(''text'', JStr ''RKI''), (''language'', JStr ''de'')])]"
  using transform_strings_to_dict_wraps [of "[(''type'', JStr ''string'')]" "''x''" "[]"]
    transform_strings_to_dict_wraps
      [of "[(''value'', JStr ''Q42''), (''type'', JStr ''string'')]" "''Q42''" "[]"]
    transform_strings_to_dict_wraps
      [of "[(''value'', JDict [(''text'', JStr ''RKI''), (''language'', JStr ''de'')])]" "''x''"
          "[(''text'', JStr ''RKI''), (''language'', JStr ''de'')]"]
  by (simp add: dict_get_def)


end
